theory Spec2Isabelle
  imports Main
begin

section \<open>The Go runtime as far as generate.go uses it\<close>

text \<open>
  An \<open>int64\<close> is an integer together with the wrap-around that Go applies to the result
  of every arithmetic operation. Go's \<open>/\<close> truncates towards zero and panics on a zero
  divisor.
\<close>

type_synonym int64 = int

definition is_int64 :: "int \<Rightarrow> bool" where
  "is_int64 x \<longleftrightarrow> - (2 ^ 63) \<le> x \<and> x < 2 ^ 63"

definition wrap64 :: "int \<Rightarrow> int64" where
  "wrap64 x = (x + 2 ^ 63) mod 2 ^ 64 - 2 ^ 63"

definition quo :: "int \<Rightarrow> int \<Rightarrow> int" where
  "quo a b = (if (a < 0) = (b < 0) then \<bar>a\<bar> div \<bar>b\<bar> else - (\<bar>a\<bar> div \<bar>b\<bar>))"

datatype panic =
    DivideByZero
  | SliceBounds
  | IndexOutOfRange
  | NilDereference
  | CloseOfClosedChannel
  | SendOnClosedChannel

definition go_div :: "int64 \<Rightarrow> int64 \<Rightarrow> panic + int64" where
  "go_div a b = (if b = 0 then Inl DivideByZero else Inr (wrap64 (quo a b)))"

text \<open>Indexing a Go map: a missing key yields the zero value of the value type.\<close>

definition index_string :: "(string \<rightharpoonup> string) \<Rightarrow> string \<Rightarrow> string" where
  "index_string m k = (case m k of None \<Rightarrow> [] | Some v \<Rightarrow> v)"

definition index_int64 :: "(string \<rightharpoonup> int64) \<Rightarrow> string \<Rightarrow> int64" where
  "index_int64 m k = (case m k of None \<Rightarrow> 0 | Some v \<Rightarrow> v)"

text \<open>
  A slice of one row of the two-layer \<open>values\<close> array: the row it aliases, the offset of
  its first element in that row, its length and its capacity. Re-slicing \<open>s[lo:hi]\<close>
  panics unless \<open>lo \<le> hi \<le> cap(s)\<close>.
\<close>

record slice =
  s_row :: nat
  s_off :: nat
  s_len :: nat
  s_cap :: nat

definition rowSlice :: "nat \<Rightarrow> nat \<Rightarrow> slice" where
  "rowSlice i width = \<lparr>s_row = i, s_off = 0, s_len = width, s_cap = width\<rparr>"

definition reslice :: "slice \<Rightarrow> nat \<Rightarrow> nat \<Rightarrow> panic + slice" where
  "reslice s lo hi =
     (if lo \<le> hi \<and> hi \<le> s_cap s
      then Inr \<lparr>s_row = s_row s, s_off = s_off s + lo, s_len = hi - lo, s_cap = s_cap s - lo\<rparr>
      else Inl SliceBounds)"

text \<open>
  The two views \<open>genQuery\<close> takes of row \<open>i\<close> of \<open>values\<close>, a row of \<open>width\<close> cells:
  \<open>values[i][:g]\<close> and \<open>values[i][g:]\<close>.
\<close>

definition prefixView :: "nat \<Rightarrow> nat \<Rightarrow> nat \<Rightarrow> panic + slice" where
  "prefixView width g i = reslice (rowSlice i width) 0 g"

definition suffixView :: "nat \<Rightarrow> nat \<Rightarrow> nat \<Rightarrow> panic + slice" where
  "suffixView width g i = reslice (rowSlice i width) g width"

text \<open>The cells a slice addresses, as (row, column) positions of the row buffer.\<close>

definition footprint :: "slice \<Rightarrow> (nat \<times> nat) list" where
  "footprint s = map (\<lambda>j. (s_row s, s_off s + j)) [0..<s_len s]"

section \<open>Schema metadata (package db, read only)\<close>

record Field =
  ColumnName :: string
  DataType :: string
  IsNullable :: bool
  NumericPrecision :: int64
  NumericScale :: int64
  CharacterMaximumLength :: int64
  SetEnumVals :: "string list"

record Constraint =
  ReferencedTableSchema :: string
  ReferencedTableName :: string
  ReferencedFields :: "Field list"

text \<open>
  \<open>FieldsToGenerate\<close> and \<open>FieldsToSample\<close> are methods of \<open>db.Table\<close>; the lists they
  return are part of the table as generate.go sees it.
\<close>

record Table =
  Schema :: string
  Name :: string
  Constraints :: "Constraint list"
  FieldsToGenerate :: "Field list"
  FieldsToSample :: "Field list"

record ForeignKeyLinks =
  DefaultRelationship :: string
  DBRandomOneToMany :: "string \<rightharpoonup> string"
  OneToOne :: "string \<rightharpoonup> string"

section \<open>Getters and samplers\<close>

text \<open>
  A getter is the constructor call that made it, with its arguments. \<open>SampledValue\<close>
  stands for the getters a sampler stores. A cell of the row buffer holds a getter or
  \<open>nil\<close>.
\<close>

datatype Getter =
    RandomIntRange string int64 int64 bool
  | RandomInt string int64 bool
  | RandomDecimal string int64 int64 bool
  | RandomString string int64 bool
  | RandomDate string bool
  | RandomDateTime string bool
  | RandomTime bool
  | RandomEnum "string list" bool
  | RandomBinary string int64 bool
  | SampledValue string

type_synonym cell = "Getter option"

type_synonym buffer = "cell list list"

datatype Sampler =
    UniformSample "Field list" string string "slice list"
  | DBRandomSample "Field list" string string "slice list"

fun subSliceOf :: "Sampler \<Rightarrow> slice list" where
  "subSliceOf (UniformSample fs sch tbl ss) = ss"
| "subSliceOf (DBRandomSample fs sch tbl ss) = ss"

text \<open>What a sampler does to one cell of its sub-slice.\<close>

datatype cellwrite = Keep | Put cell

section \<open>The world outside the package\<close>

text \<open>
  Every interaction with the outside is recorded in a trace. A statement handed to the
  sink or to the database is recorded with the \<open>count\<close> argument of the \<open>insert\<close> call
  that built it and with the result the collaborator returned. The sink is the writer of
  the \<open>Insert\<close> (standard output, or what \<open>SetWriter\<close> stored). Errors are their
  messages; \<open>None\<close> is \<open>nil\<close>. Of the log, the error entries are recorded; the debug
  entry of \<open>genQuery\<close> is not.
\<close>

datatype event =
    SinkWrite int64 string "string option"
  | DBExec int64 string "string + int64"
  | SampleCall Sampler "string option"
  | ChanSend nat int64 bool
  | ChanClose nat
  | LogError string "(string \<times> string) list"

text \<open>
  The collaborators answer as a function of the history so far: the clock, the rendering
  collaborator (\<open>db.InsertTemplate\<close>, \<open>db.Escape\<close>, \<open>db.EscapedNamesListFromFields\<close>,
  \<open>InsertValues.String\<close>), the samplers' \<open>Sample\<close>, the writer, \<open>db.DB.Exec\<close> with
  \<open>RowsAffected\<close>, and whether a receiver is waiting on the notify channel.
\<close>

record env =
  yearNow :: int64
  insertHeader :: "string \<Rightarrow> string \<Rightarrow> Field list \<Rightarrow> string"
  rowString :: "event list \<Rightarrow> nat \<Rightarrow> cell list \<Rightarrow> string"
  sampleResult :: "event list \<Rightarrow> Sampler \<Rightarrow> (nat \<Rightarrow> nat \<Rightarrow> cellwrite) \<times> string option"
  writeResult :: "event list \<Rightarrow> string \<Rightarrow> string option"
  execResult :: "event list \<Rightarrow> string \<Rightarrow> string + int64"
  receiverReady :: "event list \<Rightarrow> bool"

text \<open>Channels are numbered in the order they are made; \<open>True\<close> is open.\<close>

record world =
  trace :: "event list"
  chans :: "bool list"

definition emit :: "event list \<Rightarrow> world \<Rightarrow> world" where
  "emit es w = w\<lparr>trace := trace w @ es\<rparr>"

definition chan_open :: "world \<Rightarrow> nat \<Rightarrow> bool" where
  "chan_open w c \<longleftrightarrow> c < length (chans w) \<and> chans w ! c"

definition close_chan :: "nat \<Rightarrow> world \<Rightarrow> panic + world" where
  "close_chan c w =
     (if chan_open w c
      then Inr (emit [ChanClose c] (w\<lparr>chans := (chans w)[c := False]\<rparr>))
      else Inl CloseOfClosedChannel)"

record Insert =
  table :: Table
  fklinks :: ForeignKeyLinks
  notifyChan :: "nat option"

text \<open>
  How a call ends: it returns; or it panics in the goroutine of its caller, whose deferred
  calls are then run; or a goroutine that it started panics, which ends the program at
  once: no deferred call of another goroutine is run (\<open>Crash\<close>).
\<close>

datatype outcome = Panic panic | Crash panic | Return int64 "string option"

section \<open>generate.go\<close>

definition maxValues :: "string \<rightharpoonup> int64" where
  "maxValues = map_of
     [(''tinyint'', 0xF),
      (''smallint'', 0xFF),
      (''mediumint'', 0x7FFFF),
      (''int'', 0x7FFFFFFF),
      (''integer'', 0x7FFFFFFF),
      (''float'', 0x7FFFFFFF),
      (''decimal'', 0x7FFFFFFF),
      (''double'', 0x7FFFFFFF),
      (''bigint'', 0x7FFFFFFFFFFFFFFF)]"

definition New :: "Table \<Rightarrow> ForeignKeyLinks \<Rightarrow> Insert" where
  "New t fk = \<lparr>table = t, fklinks = fk, notifyChan = None\<rparr>"

definition NotifyChan :: "Insert \<Rightarrow> world \<Rightarrow> (panic + nat) \<times> Insert \<times> world" where
  "NotifyChan ins w =
     (case (case notifyChan ins of
              None \<Rightarrow> Inr w
            | Some c \<Rightarrow> close_chan c w) of
        Inl p \<Rightarrow> (Inl p, ins, w)
      | Inr w1 \<Rightarrow>
          (Inr (length (chans w1)),
           ins\<lparr>notifyChan := Some (length (chans w1))\<rparr>,
           w1\<lparr>chans := chans w1 @ [True]\<rparr>))"

definition notify :: "env \<Rightarrow> Insert \<Rightarrow> int64 \<Rightarrow> world \<Rightarrow> panic option \<times> world" where
  "notify e ins n w =
     (case notifyChan ins of
        None \<Rightarrow> (None, w)
      | Some c \<Rightarrow>
          if chan_open w c
          then (None, emit [ChanSend c n (receiverReady e (trace w))] w)
          else (Some SendOnClosedChannel, w))"

definition relationship :: "ForeignKeyLinks \<Rightarrow> string \<Rightarrow> string \<Rightarrow> string" where
  "relationship r tableName refTableName =
     (if index_string (OneToOne r) tableName = refTableName then ''1-1''
      else if index_string (DBRandomOneToMany r) tableName = refTableName then ''db-random-1-n''
      else DefaultRelationship r)"

definition createSamplerFromForeignkeyLinks ::
    "string \<Rightarrow> Constraint \<Rightarrow> slice list \<Rightarrow> Sampler" where
  "createSamplerFromForeignkeyLinks fklink constraint subSlice =
     (if fklink = ''1-1'' then
        UniformSample (ReferencedFields constraint) (ReferencedTableSchema constraint)
          (ReferencedTableName constraint) subSlice
      else if fklink = ''db-random-1-n'' then
        DBRandomSample (ReferencedFields constraint) (ReferencedTableSchema constraint)
          (ReferencedTableName constraint) subSlice
      else
        DBRandomSample (ReferencedFields constraint) (ReferencedTableSchema constraint)
          (ReferencedTableName constraint) subSlice)"

text \<open>
  The ceiling handed to \<open>NewRandomInt\<close>: \<open>maxValues["bigint"]\<close>, replaced by the
  entry of the data type when the table has one.
\<close>

definition maxValueFor :: "string \<Rightarrow> int64" where
  "maxValueFor dt =
     (case maxValues dt of
        Some m \<Rightarrow> m
      | None \<Rightarrow> index_int64 maxValues ''bigint'')"

text \<open>
  The \<open>switch\<close> of \<open>generateFieldsRow\<close> for one column: the value stored in the cell and
  what is logged. Both reads of the clock in the \<open>year\<close> case are taken in the same year.
\<close>

definition fieldValue :: "int64 \<Rightarrow> Field \<Rightarrow> cell \<times> event list" where
  "fieldValue year field =
     (let dt = DataType field; name = ColumnName field; nullable = IsNullable field in
      if dt \<in> set [''tinyint'', ''bit'', ''bool'', ''boolean'']
        then (Some (RandomIntRange name 0 1 nullable), [])
      else if dt \<in> set [''smallint'', ''mediumint'', ''int'', ''integer'', ''bigint'']
        then (Some (RandomInt name (maxValueFor dt) nullable), [])
      else if dt \<in> set [''float'', ''decimal'', ''double'', ''numeric'']
        then (Some (RandomDecimal name (NumericPrecision field) (NumericScale field) nullable), [])
      else if dt \<in> set [''char'', ''varchar'']
        then (Some (RandomString name (CharacterMaximumLength field) nullable), [])
      else if dt = ''date''
        then (Some (RandomDate name nullable), [])
      else if dt \<in> set [''datetime'', ''timestamp'']
        then (Some (RandomDateTime name nullable), [])
      else if dt \<in> set [''tinyblob'', ''tinytext'', ''blob'', ''text'', ''mediumtext'',
                         ''mediumblob'', ''longblob'', ''longtext'']
        then (Some (RandomString name (CharacterMaximumLength field) nullable), [])
      else if dt = ''time''
        then (Some (RandomTime nullable), [])
      else if dt = ''year''
        then (Some (RandomIntRange name (wrap64 (year - 1)) year nullable), [])
      else if dt \<in> set [''enum'', ''set'']
        then (Some (RandomEnum (SetEnumVals field) nullable), [])
      else if dt \<in> set [''binary'', ''varbinary'']
        then (Some (RandomBinary name (CharacterMaximumLength field) nullable), [])
      else (None, [LogError ''unsupported datatypes when generating fields''
                     [(''type'', dt), (''field'', name)]]))"

text \<open>Storing through a slice at an index below its length.\<close>

definition poke :: "slice \<Rightarrow> nat \<Rightarrow> cell \<Rightarrow> buffer \<Rightarrow> buffer" where
  "poke s j v b = b[s_row s := (b ! s_row s)[s_off s + j := v]]"

fun genCols ::
    "int64 \<Rightarrow> Field list \<Rightarrow> slice \<Rightarrow> nat list \<Rightarrow> buffer \<times> event list
      \<Rightarrow> panic + buffer \<times> event list" where
  "genCols year flds insertValues [] st = Inr st"
| "genCols year flds insertValues (colIndex # rest) st =
     (if colIndex < length flds then
        genCols year flds insertValues rest
          (poke insertValues colIndex (fst (fieldValue year (flds ! colIndex))) (fst st),
           snd st @ snd (fieldValue year (flds ! colIndex)))
      else Inl IndexOutOfRange)"

definition generateFieldsRow ::
    "int64 \<Rightarrow> Field list \<Rightarrow> slice \<Rightarrow> buffer \<Rightarrow> panic + buffer \<times> event list" where
  "generateFieldsRow year flds insertValues b =
     genCols year flds insertValues [0..<s_len insertValues] (b, [])"

definition errorsWrap :: "string \<Rightarrow> string \<Rightarrow> string" where
  "errorsWrap err msg = msg @ '': '' @ err"

fun subSlices :: "slice list \<Rightarrow> nat \<Rightarrow> nat \<Rightarrow> panic + slice list" where
  "subSlices [] lo hi = Inr []"
| "subSlices (v # vs) lo hi =
     (case reslice v lo hi of
        Inl p \<Rightarrow> Inl p
      | Inr s \<Rightarrow>
          (case subSlices vs lo hi of
             Inl p \<Rightarrow> Inl p
           | Inr ss \<Rightarrow> Inr (s # ss)))"

text \<open>
  The effect of \<open>sampler.Sample()\<close> on the row buffer: for every row of its sub-slice and
  every index below that row's length, the sampler keeps the cell or stores into it.
\<close>

definition applySample :: "(nat \<Rightarrow> nat \<Rightarrow> cellwrite) \<Rightarrow> slice list \<Rightarrow> buffer \<Rightarrow> buffer" where
  "applySample f ss b =
     fold (\<lambda>i. fold (\<lambda>j b'. case f i j of Keep \<Rightarrow> b' | Put v \<Rightarrow> poke (ss ! i) j v b')
                  [0..<s_len (ss ! i)])
          [0..<length ss] b"

fun sampleConstraints ::
    "env \<Rightarrow> Insert \<Rightarrow> slice list \<Rightarrow> Constraint list \<Rightarrow> nat \<Rightarrow> buffer \<Rightarrow> world
      \<Rightarrow> (panic + string option) \<times> buffer \<times> world" where
  "sampleConstraints e ins vals [] colIdx b w = (Inr None, b, w)"
| "sampleConstraints e ins vals (constraint # rest) colIdx b w =
     (case subSlices vals colIdx (colIdx + length (ReferencedFields constraint)) of
        Inl p \<Rightarrow> (Inl p, b, w)
      | Inr subSlice \<Rightarrow>
          (let fklink = relationship (fklinks ins) (Name (table ins))
                          (ReferencedTableName constraint);
               sampler = createSamplerFromForeignkeyLinks fklink constraint subSlice;
               res = sampleResult e (trace w) sampler;
               b1 = applySample (fst res) subSlice b;
               w1 = emit [SampleCall sampler (snd res)] w
           in case snd res of
                Some err \<Rightarrow> (Inr (Some (errorsWrap err ''sampleFieldsTable'')), b1, w1)
              | None \<Rightarrow>
                  sampleConstraints e ins vals rest
                    (colIdx + length (ReferencedFields constraint)) b1 w1))"

definition sampleFieldsTable ::
    "env \<Rightarrow> Insert \<Rightarrow> Field list \<Rightarrow> slice list \<Rightarrow> buffer \<Rightarrow> world
      \<Rightarrow> (panic + string option) \<times> buffer \<times> world" where
  "sampleFieldsTable e ins flds vals b w =
     sampleConstraints e ins vals (Constraints (table ins)) 0 b w"

text \<open>
  The rendering loop at the end of \<open>genQuery\<close>, from row index \<open>row\<close> on; \<open>n\<close> is
  \<open>len(values)\<close>. A row of \<open>values\<close> is a slice or \<open>nil\<close>.
\<close>

fun renderLoop :: "env \<Rightarrow> event list \<Rightarrow> nat \<Rightarrow> nat \<Rightarrow> cell list option list \<Rightarrow> string" where
  "renderLoop e h row n [] = []"
| "renderLoop e h row n (None # rest) = renderLoop e h (Suc row) n rest"
| "renderLoop e h row n (Some cells # rest) =
     rowString e h row cells
       @ (if int row \<noteq> int n - 1 then '','' else [])
       @ renderLoop e h (Suc row) n rest"

text \<open>
  The generation goroutine of \<open>genQuery\<close>: \<open>generateFieldsRow\<close> on the prefix
  \<open>values[i][:len(fieldsToGen)]\<close> of every row.
\<close>

fun genRows ::
    "int64 \<Rightarrow> Field list \<Rightarrow> nat \<Rightarrow> nat list \<Rightarrow> buffer \<times> event list
      \<Rightarrow> panic + buffer \<times> event list" where
  "genRows year fieldsToGen width [] st = Inr st"
| "genRows year fieldsToGen width (i # rest) st =
     (case prefixView width (length fieldsToGen) i of
        Inl p \<Rightarrow> Inl p
      | Inr insertValues \<Rightarrow>
          (case generateFieldsRow year fieldsToGen insertValues (fst st) of
             Inl p \<Rightarrow> Inl p
           | Inr r \<Rightarrow> genRows year fieldsToGen width rest (fst r, snd st @ snd r)))"

text \<open>
  The sampling goroutine of \<open>genQuery\<close>: the sub-slices \<open>values[i][len(fieldsToGen):]\<close>,
  then \<open>sampleFieldsTable\<close>, whose error is logged.
\<close>

fun sampledViews :: "nat \<Rightarrow> nat \<Rightarrow> nat list \<Rightarrow> panic + slice list" where
  "sampledViews width g [] = Inr []"
| "sampledViews width g (i # rest) =
     (case suffixView width g i of
        Inl p \<Rightarrow> Inl p
      | Inr s \<Rightarrow>
          (case sampledViews width g rest of
             Inl p \<Rightarrow> Inl p
           | Inr ss \<Rightarrow> Inr (s # ss)))"

definition samplePhase ::
    "env \<Rightarrow> Insert \<Rightarrow> nat \<Rightarrow> buffer \<Rightarrow> world \<Rightarrow> (panic + buffer) \<times> world" where
  "samplePhase e ins count b w =
     (let fieldsToGen = FieldsToGenerate (table ins);
          fieldsToSample = FieldsToSample (table ins);
          width = length fieldsToGen + length fieldsToSample
      in case sampledViews width (length fieldsToGen) [0..<count] of
           Inl p \<Rightarrow> (Inl p, w)
         | Inr sampledValues \<Rightarrow>
             (case sampleFieldsTable e ins fieldsToSample sampledValues b w of
                (Inl p, b1, w1) \<Rightarrow> (Inl p, w1)
              | (Inr None, b1, w1) \<Rightarrow> (Inr b1, w1)
              | (Inr (Some err), b1, w1) \<Rightarrow>
                  (Inr b1, emit [LogError ''error when sampling field'' [(''error'', err)]] w1)))"

text \<open>
  Both goroutines have finished when \<open>wg.Wait()\<close> returns. They write disjoint cells of
  the buffer (see \<open>poke_commute\<close>), so the buffer does not depend on how they are
  interleaved. The trace lists the entries of the generation goroutine, which talks to
  nobody but the log, before those of the sampling goroutine; this is one of the orders
  in which the two may reach the log. Nothing below depends on the position of an entry
  of one goroutine relative to the entries of the other. A panic (\<open>Inl\<close>) is raised in
  one of the two goroutines.
\<close>

definition fillValues ::
    "env \<Rightarrow> Insert \<Rightarrow> int64 \<Rightarrow> world \<Rightarrow> (panic + buffer) \<times> world" where
  "fillValues e ins count w =
     (let fieldsToGen = FieldsToGenerate (table ins);
          fieldsToSample = FieldsToSample (table ins);
          width = length fieldsToGen + length fieldsToSample;
          vals = replicate (nat count) (replicate width None)
      in case (if length fieldsToGen \<noteq> 0
               then genRows (yearNow e) fieldsToGen width [0..<nat count] (vals, [])
               else Inr (vals, [])) of
           Inl p \<Rightarrow> (Inl p, w)
         | Inr r \<Rightarrow>
             if length fieldsToSample \<noteq> 0
             then samplePhase e ins (nat count) (fst r) (emit (snd r) w)
             else (Inr (fst r), emit (snd r) w))"

definition genQuery ::
    "env \<Rightarrow> Insert \<Rightarrow> int64 \<Rightarrow> world \<Rightarrow> (panic + string option) \<times> world" where
  "genQuery e ins count w =
     (if count < 1 then (Inr None, w)
      else
        case fillValues e ins count w of
          (Inl p, w1) \<Rightarrow> (Inl p, w1)
        | (Inr vals, w1) \<Rightarrow>
            (Inr (Some
               (insertHeader e (Schema (table ins)) (Name (table ins))
                  (FieldsToGenerate (table ins) @ FieldsToSample (table ins))
                @ renderLoop e (trace w1) 0 (length vals) (map Some vals))),
             w1))"

definition newline :: string where
  "newline = [CHR 0x0A]"

definition insert_chunk :: "env \<Rightarrow> Insert \<Rightarrow> int64 \<Rightarrow> bool \<Rightarrow> world \<Rightarrow> outcome \<times> world" where
  "insert_chunk e ins count dryRun w =
     (if count < 1 then (Return 0 None, w)
      else
        case genQuery e ins count w of
          (Inl p, w1) \<Rightarrow> (Crash p, w1)
        | (Inr None, w1) \<Rightarrow> (Panic NilDereference, w1)
        | (Inr (Some insertQuery), w1) \<Rightarrow>
            if dryRun then
              (case writeResult e (trace w1) (insertQuery @ newline) of
                 Some err \<Rightarrow>
                   (Return 0 (Some err),
                    emit [SinkWrite count (insertQuery @ newline) (Some err)] w1)
               | None \<Rightarrow>
                   (Return count None,
                    emit [SinkWrite count (insertQuery @ newline) None] w1))
            else
              (case execResult e (trace w1) insertQuery of
                 Inl err \<Rightarrow>
                   (Return 0 (Some err),
                    emit [DBExec count insertQuery (Inl err),
                          LogError ''failed to insert'' [(''query'', insertQuery), (''error'', err)]]
                      w1)
               | Inr ra \<Rightarrow>
                   (Return ra None, emit [DBExec count insertQuery (Inr ra)] w1)))"

text \<open>
  The \<open>for\<close> loop of \<open>run\<close>. The result is the early \<open>return\<close> (or panic) if there is
  one, \<open>okCount\<close> and the world.
\<close>

function run_loop ::
    "env \<Rightarrow> Insert \<Rightarrow> int64 \<Rightarrow> bool \<Rightarrow> int64 \<Rightarrow> int64 \<Rightarrow> int64 \<Rightarrow> world
      \<Rightarrow> outcome option \<times> int64 \<times> world" where
  "run_loop e ins bulksize dryRun completeInserts i okCount w =
     (if i < completeInserts then
        (case insert_chunk e ins bulksize dryRun w of
           (Panic p, w1) \<Rightarrow> (Some (Panic p), okCount, w1)
         | (Crash p, w1) \<Rightarrow> (Some (Crash p), okCount, w1)
         | (Return n (Some err), w1) \<Rightarrow>
             (Some (Return (wrap64 (okCount + n)) (Some err)), wrap64 (okCount + n), w1)
         | (Return n None, w1) \<Rightarrow>
             (case notify e ins n w1 of
                (Some p, w2) \<Rightarrow> (Some (Panic p), wrap64 (okCount + n), w2)
              | (None, w2) \<Rightarrow>
                  run_loop e ins bulksize dryRun completeInserts (i + 1)
                    (wrap64 (okCount + n)) w2))
      else (None, okCount, w))"
  by pat_completeness auto
termination
  by (relation "measure (\<lambda>(e, ins, bulksize, dryRun, completeInserts, i, okCount, w).
        nat (completeInserts - i))") auto

text \<open>\<open>completeInserts\<close> and \<open>remainder\<close>, as \<open>run\<close> computes them.\<close>

definition chunks :: "int64 \<Rightarrow> int64 \<Rightarrow> panic + int64 \<times> int64" where
  "chunks count bulksize =
     (case go_div count bulksize of
        Inl p \<Rightarrow> Inl p
      | Inr completeInserts \<Rightarrow>
          Inr (completeInserts, wrap64 (count - wrap64 (completeInserts * bulksize))))"

text \<open>The body of \<open>run\<close>, up to its \<open>return\<close>.\<close>

definition run_body ::
    "env \<Rightarrow> Insert \<Rightarrow> int64 \<Rightarrow> int64 \<Rightarrow> bool \<Rightarrow> world \<Rightarrow> outcome \<times> world" where
  "run_body e ins count bulksize dryRun w =
     (case chunks count bulksize of
        Inl p \<Rightarrow> (Panic p, w)
      | Inr (completeInserts, remainder) \<Rightarrow>
          (case run_loop e ins bulksize dryRun completeInserts 0 0 w of
             (Some out, okCount, w1) \<Rightarrow> (out, w1)
           | (None, okCount, w1) \<Rightarrow>
               (case insert_chunk e ins remainder dryRun w1 of
                  (Panic p, w2) \<Rightarrow> (Panic p, w2)
                | (Crash p, w2) \<Rightarrow> (Crash p, w2)
                | (Return n err, w2) \<Rightarrow>
                    (case notify e ins n w2 of
                       (Some p, w3) \<Rightarrow> (Panic p, w3)
                     | (None, w3) \<Rightarrow> (Return (wrap64 (okCount + n)) err, w3)))))"

text \<open>
  \<open>run\<close>: the body, then the deferred \<open>close(in.notifyChan)\<close>, which runs when the
  body returns and when it panics, but not when a goroutine of \<open>genQuery\<close> ends the
  program.
\<close>

definition run :: "env \<Rightarrow> Insert \<Rightarrow> int64 \<Rightarrow> int64 \<Rightarrow> bool \<Rightarrow> world \<Rightarrow> outcome \<times> world" where
  "run e ins count bulksize dryRun w =
     (case notifyChan ins of
        None \<Rightarrow> run_body e ins count bulksize dryRun w
      | Some c \<Rightarrow>
          (case run_body e ins count bulksize dryRun w of
             (Crash p, w1) \<Rightarrow> (Crash p, w1)
           | (out, w1) \<Rightarrow>
               (case close_chan c w1 of
                  Inl p \<Rightarrow> (Panic p, w1)
                | Inr w2 \<Rightarrow> (out, w2))))"

definition Run :: "env \<Rightarrow> Insert \<Rightarrow> int64 \<Rightarrow> int64 \<Rightarrow> world \<Rightarrow> outcome \<times> world" where
  "Run e ins count bulksize w = run e ins count bulksize False w"

definition DryRun :: "env \<Rightarrow> Insert \<Rightarrow> int64 \<Rightarrow> int64 \<Rightarrow> world \<Rightarrow> outcome \<times> world" where
  "DryRun e ins count bulksize w = run e ins count bulksize True w"

section \<open>Notions the properties are stated with\<close>

datatype strategy = UniformOneToOne | RandomOneToMany

fun strategyOf :: "Sampler \<Rightarrow> strategy" where
  "strategyOf (UniformSample fs sch tbl ss) = UniformOneToOne"
| "strategyOf (DBRandomSample fs sch tbl ss) = RandomOneToMany"

text \<open>
  The resolution order in the spec's words: the explicit 1-1 override for the pair, then
  the explicit random-1-N override for the pair, then the default kind, and Random 1-N
  for a kind that is not recognized. An override is an entry of the map.
\<close>

definition resolveStrategy :: "ForeignKeyLinks \<Rightarrow> string \<Rightarrow> string \<Rightarrow> strategy" where
  "resolveStrategy r tableName refTableName =
     (if OneToOne r tableName = Some refTableName then UniformOneToOne
      else if DBRandomOneToMany r tableName = Some refTableName then RandomOneToMany
      else if DefaultRelationship r = ''1-1'' then UniformOneToOne
      else RandomOneToMany)"

text \<open>
  Modelled from the spec: \<open>NewRandomIntRange\<close> and \<open>NewRandomInt\<close> are declared in a
  file of the package that is not among the sources. The spec gives their non-null
  values: a "uniform integer in [0,1]" for the range getter made with bounds 0 and 1 (in
  general, between its two bounds), a "uniform integer in [0, typeMax]" for the getter
  made with ceiling \<open>typeMax\<close>.
\<close>

fun yieldsInt :: "Getter \<Rightarrow> int \<Rightarrow> bool" where
  "yieldsInt (RandomIntRange name lo hi nullable) v \<longleftrightarrow> lo \<le> v \<and> v \<le> hi"
| "yieldsInt (RandomInt name mx nullable) v \<longleftrightarrow> 0 \<le> v \<and> v \<le> mx"
| "yieldsInt g v \<longleftrightarrow> False"

text \<open>The per-type ceiling in the spec's words.\<close>

definition typeMax :: "string \<Rightarrow> int" where
  "typeMax dt =
     (if dt = ''tinyint'' then 0xF
      else if dt = ''smallint'' then 0xFF
      else if dt = ''mediumint'' then 0x7FFFF
      else if dt = ''int'' \<or> dt = ''integer'' then 0x7FFFFFFF
      else 0x7FFFFFFFFFFFFFFF)"

text \<open>
  The statements in a trace, in the order they were issued: each with the number of rows
  it was built for and what came back, the error or the number of rows reported (the
  requested count for an accepted dry-run write, \<open>RowsAffected\<close> for the database).
\<close>

fun stmt_of :: "event \<Rightarrow> (int64 \<times> (string + int64)) list" where
  "stmt_of (SinkWrite c t None) = [(c, Inr c)]"
| "stmt_of (SinkWrite c t (Some err)) = [(c, Inl err)]"
| "stmt_of (DBExec c t r) = [(c, r)]"
| "stmt_of ev = []"

definition stmts :: "event list \<Rightarrow> (int64 \<times> (string + int64)) list" where
  "stmts h = concat (map stmt_of h)"

fun rows_of :: "string + int64 \<Rightarrow> int64" where
  "rows_of (Inl err) = 0"
| "rows_of (Inr n) = n"

definition succeeded :: "int64 \<times> (string + int64) \<Rightarrow> bool" where
  "succeeded s \<longleftrightarrow> \<not> isl (snd s)"

text \<open>The sum of the rows reported, added up as \<open>okCount += n\<close> does.\<close>

definition committed :: "int64 \<Rightarrow> (int64 \<times> (string + int64)) list \<Rightarrow> int64" where
  "committed okCount ss = foldl (\<lambda>a s. wrap64 (a + rows_of (snd s))) okCount ss"

text \<open>What was handed to the sink, what to the database, and the samplers invoked.\<close>

fun sink_of :: "event \<Rightarrow> string list" where
  "sink_of (SinkWrite c t r) = [t]"
| "sink_of ev = []"

definition sinkWrites :: "event list \<Rightarrow> string list" where
  "sinkWrites h = concat (map sink_of h)"

fun exec_of :: "event \<Rightarrow> string list" where
  "exec_of (DBExec c t r) = [t]"
| "exec_of ev = []"

definition dbExecs :: "event list \<Rightarrow> string list" where
  "dbExecs h = concat (map exec_of h)"

fun sample_of :: "event \<Rightarrow> (Sampler \<times> string option) list" where
  "sample_of (SampleCall s r) = [(s, r)]"
| "sample_of ev = []"

definition sampleCalls :: "event list \<Rightarrow> (Sampler \<times> string option) list" where
  "sampleCalls h = concat (map sample_of h)"

text \<open>Events of building a chunk: sampler invocations and log entries.\<close>

fun internal_event :: "event \<Rightarrow> bool" where
  "internal_event (SampleCall s r) = True"
| "internal_event (LogError t fs) = True"
| "internal_event ev = False"

definition internal :: "event list \<Rightarrow> bool" where
  "internal es \<longleftrightarrow> list_all internal_event es"

text \<open>The data type names \<open>generateFieldsRow\<close> has a case for.\<close>

definition recognizedTypes :: "string list" where
  "recognizedTypes =
     [''tinyint'', ''bit'', ''bool'', ''boolean'',
      ''smallint'', ''mediumint'', ''int'', ''integer'', ''bigint'',
      ''float'', ''decimal'', ''double'', ''numeric'',
      ''char'', ''varchar'',
      ''date'',
      ''datetime'', ''timestamp'',
      ''tinyblob'', ''tinytext'', ''blob'', ''text'', ''mediumtext'', ''mediumblob'',
      ''longblob'', ''longtext'',
      ''time'',
      ''year'',
      ''enum'', ''set'',
      ''binary'', ''varbinary'']"

text \<open>
  The columns before constraint \<open>k\<close> among the sample-columns: the referenced-field
  counts of the constraints before it, added up.
\<close>

definition offsetOf :: "Constraint list \<Rightarrow> nat \<Rightarrow> nat" where
  "offsetOf cs k = sum_list (map (\<lambda>c. length (ReferencedFields c)) (take k cs))"

text \<open>
  The first column of constraint \<open>k\<close> in a row: the generate-columns come first, then
  the columns of the constraints before it.
\<close>

definition rangeStart :: "Table \<Rightarrow> nat \<Rightarrow> nat" where
  "rangeStart t k = length (FieldsToGenerate t) + offsetOf (Constraints t) k"

definition cellsOf :: "slice list \<Rightarrow> (nat \<times> nat) set" where
  "cellsOf ss = set (concat (map footprint ss))"

definition succeededCall :: "Sampler \<times> string option \<Rightarrow> bool" where
  "succeededCall c \<longleftrightarrow> snd c = None"

definition callEvent :: "Sampler \<times> string option \<Rightarrow> event" where
  "callEvent c = SampleCall (fst c) (snd c)"

text \<open>
  The chunk plan in the spec's words: floor(count / bulksize) statements of bulksize
  rows, then one of the remainder unless the remainder is 0; nothing for a count below 1.
\<close>

definition chunkPlan :: "int \<Rightarrow> int \<Rightarrow> int list" where
  "chunkPlan count bulksize =
     (if count < 1 then []
      else replicate (nat (count div bulksize)) bulksize
           @ (if count - (count div bulksize) * bulksize = 0 then []
              else [count - (count div bulksize) * bulksize]))"

text \<open>Rows joined with one comma between consecutive rows and none after the last.\<close>

fun joinRows :: "string list \<Rightarrow> string" where
  "joinRows [] = []"
| "joinRows [r] = r"
| "joinRows (r # rs) = r @ '','' @ joinRows rs"

text \<open>
  The statement over the rows \<open>vals\<close>: the header of the table's columns, then every
  row of \<open>vals\<close> rendered, in order; \<open>h\<close> is the history at the time of rendering.
\<close>

definition statementText :: "env \<Rightarrow> Insert \<Rightarrow> event list \<Rightarrow> buffer \<Rightarrow> string" where
  "statementText e ins h vals =
     insertHeader e (Schema (table ins)) (Name (table ins))
       (FieldsToGenerate (table ins) @ FieldsToSample (table ins))
     @ joinRows (map (\<lambda>(i, cells). rowString e h i cells) (zip [0..<length vals] vals))"

text \<open>
  The statements in a trace with their text: the number of rows each was built for and
  what was handed to the sink or to the database.
\<close>

fun text_of :: "event \<Rightarrow> (int64 \<times> string) list" where
  "text_of (SinkWrite c t r) = [(c, t)]"
| "text_of (DBExec c t r) = [(c, t)]"
| "text_of ev = []"

definition texts :: "event list \<Rightarrow> (int64 \<times> string) list" where
  "texts h = concat (map text_of h)"

section \<open>Example inputs\<close>

definition exampleField :: "string \<Rightarrow> string \<Rightarrow> Field" where
  "exampleField name dt =
     \<lparr>ColumnName = name, DataType = dt, IsNullable = False, NumericPrecision = 10,
      NumericScale = 2, CharacterMaximumLength = 20, SetEnumVals = []\<rparr>"

definition exampleLinks :: ForeignKeyLinks where
  "exampleLinks =
     \<lparr>DefaultRelationship = ''random-1-n'',
      DBRandomOneToMany = [''customers'' \<mapsto> ''orders''],
      OneToOne = [''citizens'' \<mapsto> ''ssns'']\<rparr>"

definition exampleConstraint :: "string \<Rightarrow> Constraint" where
  "exampleConstraint ref =
     \<lparr>ReferencedTableSchema = ''public'', ReferencedTableName = ref,
      ReferencedFields = [exampleField ''id'' ''int'']\<rparr>"

definition exampleTable :: Table where
  "exampleTable =
     \<lparr>Schema = ''shop'', Name = ''orders'',
      Constraints = [exampleConstraint ''customers''],
      FieldsToGenerate = [exampleField ''qty'' ''smallint'', exampleField ''shape'' ''geometry''],
      FieldsToSample = [exampleField ''customer_id'' ''int'']\<rparr>"

text \<open>
  An environment in which the statement issued after \<open>failAt\<close> statements fails (none
  for \<open>None\<close>), the database reports four rows for a statement it accepts, every
  sampler fails if \<open>samplerFails\<close>, and no receiver ever waits.
\<close>

definition exampleEnv :: "nat option \<Rightarrow> bool \<Rightarrow> env" where
  "exampleEnv failAt samplerFails =
     \<lparr>yearNow = 2026,
      insertHeader = (\<lambda>sch nm fs. ''INSERT INTO '' @ sch @ ''.'' @ nm @ '' VALUES ''),
      rowString = (\<lambda>h i cells. ''(r)''),
      sampleResult = (\<lambda>h s. (\<lambda>i j. Put (Some (SampledValue ''7'')),
                              if samplerFails then Some ''connection lost'' else None)),
      writeResult = (\<lambda>h t. if Some (length (stmts h)) = failAt then Some ''disk full'' else None),
      execResult = (\<lambda>h t. if Some (length (stmts h)) = failAt then Inl ''deadlock'' else Inr 4),
      receiverReady = (\<lambda>h. False)\<rparr>"

definition exampleInsert :: Insert where
  "exampleInsert = New exampleTable exampleLinks"

definition emptyWorld :: world where
  "emptyWorld = \<lparr>trace = [], chans = []\<rparr>"

definition exampleTable2 :: Table where
  "exampleTable2 =
     \<lparr>Schema = ''shop'', Name = ''items'',
      Constraints =
        [\<lparr>ReferencedTableSchema = ''shop'', ReferencedTableName = ''orders'',
          ReferencedFields = [exampleField ''id'' ''int'']\<rparr>,
         \<lparr>ReferencedTableSchema = ''shop'', ReferencedTableName = ''products'',
          ReferencedFields = [exampleField ''id'' ''int'', exampleField ''sku'' ''char'']\<rparr>],
      FieldsToGenerate = [exampleField ''qty'' ''smallint''],
      FieldsToSample = [exampleField ''order_id'' ''int'', exampleField ''product_id'' ''int'',
                        exampleField ''product_sku'' ''char'']\<rparr>"

definition exampleInsert2 :: Insert where
  "exampleInsert2 = New exampleTable2 exampleLinks"

section \<open>Integers\<close>

lemma wrap64_id: "is_int64 x \<Longrightarrow> wrap64 x = x"
  by (simp add: is_int64_def wrap64_def)


lemma is_int64_wrap64: "is_int64 (wrap64 x)"
proof -
  define y where "y = (x + 9223372036854775808) mod (18446744073709551616 :: int)"
  have "0 \<le> y" "y < 18446744073709551616"
    by (simp_all add: y_def)
  then show ?thesis by (simp add: is_int64_def wrap64_def y_def [symmetric])
qed

lemma is_int64_between: "is_int64 a \<Longrightarrow> is_int64 b \<Longrightarrow> a \<le> x \<Longrightarrow> x \<le> b \<Longrightarrow> is_int64 x"
  by (simp add: is_int64_def)

lemma is_int64_0: "is_int64 0"
  by (simp add: is_int64_def)

lemma divmod_facts:
  fixes a b :: int
  assumes "0 \<le> a" and "1 \<le> b"
  shows "0 \<le> a div b" and "a div b \<le> a" and "0 \<le> a div b * b" and "a div b * b \<le> a"
    and "0 \<le> a - a div b * b" and "a - a div b * b < b"
proof -
  define q where "q = a div b"
  define r where "r = a mod b"
  have b0: "0 < b" using assms by simp
  have eq: "q * b + r = a" unfolding q_def r_def by (rule div_mult_mod_eq)
  have r: "0 \<le> r" "r < b" unfolding r_def using b0 by simp_all
  have q: "0 \<le> q" unfolding q_def using assms b0 by (simp add: pos_imp_zdiv_nonneg_iff)
  have "q * 1 \<le> q * b" using assms(2) q by (rule mult_left_mono)
  then have qb: "q \<le> q * b" by simp
  show "0 \<le> a div b" using q by (simp add: q_def)
  show "a div b \<le> a" using qb eq r unfolding q_def [symmetric] by linarith
  show "0 \<le> a div b * b" using qb q unfolding q_def [symmetric] by linarith
  show "a div b * b \<le> a" using eq r unfolding q_def [symmetric] by linarith
  show "0 \<le> a - a div b * b" using eq r unfolding q_def [symmetric] by linarith
  show "a - a div b * b < b" using eq r unfolding q_def [symmetric] by linarith
qed


lemma quo_nonneg: "0 \<le> a \<Longrightarrow> 1 \<le> b \<Longrightarrow> quo a b = a div b"
  by (simp add: quo_def)

lemma quo_neg: "a < 0 \<Longrightarrow> 1 \<le> b \<Longrightarrow> quo a b = - ((- a) div b)"
  by (simp add: quo_def)

lemma chunks_nonneg:
  assumes c: "is_int64 count" and b: "1 \<le> b" and c0: "0 \<le> count"
  shows "chunks count b = Inr (count div b, count - count div b * b)"
proof -
  note f = divmod_facts [OF c0 b]
  have w1: "wrap64 (count div b) = count div b"
    by (rule wrap64_id, rule is_int64_between [OF is_int64_0 c]) (rule f)+
  have w2: "wrap64 (count div b * b) = count div b * b"
    by (rule wrap64_id, rule is_int64_between [OF is_int64_0 c]) (rule f)+
  have "count - count div b * b \<le> count" using f(3) by linarith
  with f(5) have w3: "wrap64 (count - count div b * b) = count - count div b * b"
    by (intro wrap64_id is_int64_between [OF is_int64_0 c])
  have b0: "b \<noteq> 0" using b by simp
  show ?thesis
    unfolding chunks_def go_div_def quo_nonneg [OF c0 b] using b0
    by (simp only: if_False w1 w2 w3 sum.case)
qed

lemma chunks_neg:
  assumes c: "is_int64 count" and b: "1 \<le> b" and c0: "count < 0"
  shows "\<exists>k r. chunks count b = Inr (k, r) \<and> k \<le> 0 \<and> r \<le> 0
           \<and> k = quo count b \<and> r = count - k * b"
proof -
  define a where "a = - count"
  have a0: "0 \<le> a" using c0 by (simp add: a_def)
  note f = divmod_facts [OF a0 b]
  define q where "q = a div b"
  have q: "0 \<le> q" "q \<le> a" "0 \<le> q * b" "q * b \<le> a" "0 \<le> a - q * b" "a - q * b < b"
    unfolding q_def by (rule f)+
  have ca: "count = - a" by (simp add: a_def)
  have w1: "wrap64 (- q) = - q"
    using q ca by (intro wrap64_id is_int64_between [OF c is_int64_0]) linarith+
  have m: "- q * b = - (q * b)" by simp
  have w2: "wrap64 (- q * b) = - (q * b)"
    unfolding m using q ca by (intro wrap64_id is_int64_between [OF c is_int64_0]) linarith+
  have w3: "wrap64 (count - - (q * b)) = count - - (q * b)"
    using q ca by (intro wrap64_id is_int64_between [OF c is_int64_0]) linarith+
  have b0: "b \<noteq> 0" using b by simp
  have qq: "quo count b = - q"
    using quo_neg [OF c0 b] by (simp add: q_def a_def)
  have "chunks count b = Inr (- q, count - - (q * b))"
    unfolding chunks_def go_div_def qq using b0
    by (simp only: if_False w1 w2 w3 sum.case)
  moreover have "- q \<le> 0" "count - - (q * b) \<le> 0" using q ca by linarith+
  moreover have "count - - (q * b) = count - (- q) * b" by simp
  ultimately show ?thesis using qq by auto
qed

lemma chunks_exact:
  assumes c: "is_int64 count" and b: "1 \<le> b"
  shows "chunks count b = Inr (quo count b, count - quo count b * b)"
proof (cases "0 \<le> count")
  case True
  from chunks_nonneg [OF c b True] quo_nonneg [OF True b] show ?thesis by simp
next
  case False
  then have "count < 0" by simp
  from chunks_neg [OF c b this] show ?thesis by auto
qed

lemma chunks_zero: "chunks count 0 = Inl DivideByZero"
  by (simp add: chunks_def go_div_def)

lemma chunks_panic_iff: "(\<exists>p. chunks count b = Inl p) \<longleftrightarrow> b = 0"
  by (simp add: chunks_def go_div_def)

section \<open>Strategy resolution\<close>

lemma index_string_entry:
  "ref \<noteq> [] \<Longrightarrow> index_string m k = ref \<longleftrightarrow> m k = Some ref"
  by (cases "m k") (auto simp: index_string_def)

text \<open>
  C4. For every table name and every referenced table name, the sampler built for the
  pair follows the precedence: the explicit 1-1 override for the pair gives the Uniform
  1-1 sampler; otherwise the explicit random-1-N override for the pair gives the Random
  1-N sampler; otherwise the default kind decides, and a kind that is not recognized
  gives the Random 1-N sampler. Referenced tables have a name: looking up a table
  without override in a Go map gives the empty string, which is the name of no table.
\<close>

theorem strategy_resolution_order:
  assumes "refTableName \<noteq> []"
  shows "strategyOf (createSamplerFromForeignkeyLinks
            (relationship r tableName refTableName) constraint subSlice)
         = resolveStrategy r tableName refTableName"
proof -
  have one: "index_string (OneToOne r) tableName = refTableName
      \<longleftrightarrow> OneToOne r tableName = Some refTableName"
    using assms by (rule index_string_entry)
  have many: "index_string (DBRandomOneToMany r) tableName = refTableName
      \<longleftrightarrow> DBRandomOneToMany r tableName = Some refTableName"
    using assms by (rule index_string_entry)
  show ?thesis
    unfolding relationship_def resolveStrategy_def one many
    by (simp add: createSamplerFromForeignkeyLinks_def)
qed

theorem strategy_resolution_order_witness:
  "''ssns'' \<noteq> []
   \<and> strategyOf (createSamplerFromForeignkeyLinks
          (relationship exampleLinks ''citizens'' ''ssns'') (exampleConstraint ''ssns'') [])
       = UniformOneToOne
   \<and> strategyOf (createSamplerFromForeignkeyLinks
          (relationship exampleLinks ''customers'' ''orders'') (exampleConstraint ''orders'') [])
       = RandomOneToMany
   \<and> strategyOf (createSamplerFromForeignkeyLinks
          (relationship exampleLinks ''orders'' ''items'') (exampleConstraint ''items'') [])
       = RandomOneToMany"
  using strategy_resolution_order [of "''ssns''" exampleLinks "''citizens''" "exampleConstraint ''ssns''" "[]"]
    strategy_resolution_order [of "''orders''" exampleLinks "''customers''" "exampleConstraint ''orders''" "[]"]
    strategy_resolution_order [of "''items''" exampleLinks "''orders''" "exampleConstraint ''items''" "[]"]
  by (simp add: resolveStrategy_def exampleLinks_def)

section \<open>Type dispatch of the value generators\<close>

lemma maxValueFor_table:
  "maxValueFor ''tinyint'' = 0xF"
  "maxValueFor ''smallint'' = 0xFF"
  "maxValueFor ''mediumint'' = 0x7FFFF"
  "maxValueFor ''int'' = 0x7FFFFFFF"
  "maxValueFor ''integer'' = 0x7FFFFFFF"
  "maxValueFor ''bigint'' = 0x7FFFFFFFFFFFFFFF"
  by (simp_all add: maxValueFor_def maxValues_def)

lemma maxValueFor_fallback:
  "maxValues dt = None \<Longrightarrow> maxValueFor dt = 0x7FFFFFFFFFFFFFFF"
  by (simp add: maxValueFor_def index_int64_def) (simp add: maxValues_def)

text \<open>
  C5. The non-null integer generated for a generate-column respects the ceiling of its
  type: a tinyint, bit or bool column gets a getter whose values are the integers of
  [0, 1]; a smallint, mediumint, int, integer or bigint column gets a getter whose values
  are the integers of [0, typeMax], the ceiling being 0xF for tinyint in the table (not
  consulted for tinyint columns), 0xFF for smallint, 0x7FFFF for mediumint, 0x7FFFFFFF
  for int and integer, and 0x7FFFFFFFFFFFFFFF for bigint and for a type without entry.
\<close>

theorem generated_integer_ceiling:
  "(DataType f \<in> set [''tinyint'', ''bit'', ''bool''] \<longrightarrow>
      (\<exists>g. fst (fieldValue year f) = Some g \<and> (\<forall>v. yieldsInt g v \<longleftrightarrow> 0 \<le> v \<and> v \<le> 1)))
   \<and> (DataType f \<in> set [''smallint'', ''mediumint'', ''int'', ''integer'', ''bigint''] \<longrightarrow>
      (\<exists>g. fst (fieldValue year f) = Some g
         \<and> (\<forall>v. yieldsInt g v \<longleftrightarrow> 0 \<le> v \<and> v \<le> typeMax (DataType f))))
   \<and> (\<forall>dt \<in> set [''tinyint'', ''smallint'', ''mediumint'', ''int'', ''integer'', ''bigint''].
        maxValueFor dt = typeMax dt)
   \<and> (maxValues dt' = None \<longrightarrow> maxValueFor dt' = 0x7FFFFFFFFFFFFFFF)"
proof (intro conjI impI)
  assume "DataType f \<in> set [''tinyint'', ''bit'', ''bool'']"
  then have "fst (fieldValue year f) = Some (RandomIntRange (ColumnName f) 0 1 (IsNullable f))"
    by (auto simp: fieldValue_def)
  then show "\<exists>g. fst (fieldValue year f) = Some g \<and> (\<forall>v. yieldsInt g v \<longleftrightarrow> 0 \<le> v \<and> v \<le> 1)"
    by simp
next
  assume dt: "DataType f \<in> set [''smallint'', ''mediumint'', ''int'', ''integer'', ''bigint'']"
  then have "fst (fieldValue year f)
      = Some (RandomInt (ColumnName f) (maxValueFor (DataType f)) (IsNullable f))"
    by (auto simp: fieldValue_def)
  moreover have "maxValueFor (DataType f) = typeMax (DataType f)"
    using dt by (auto simp: maxValueFor_table typeMax_def)
  ultimately show "\<exists>g. fst (fieldValue year f) = Some g
      \<and> (\<forall>v. yieldsInt g v \<longleftrightarrow> 0 \<le> v \<and> v \<le> typeMax (DataType f))"
    by simp
next
  show "\<forall>dt \<in> set [''tinyint'', ''smallint'', ''mediumint'', ''int'', ''integer'', ''bigint''].
      maxValueFor dt = typeMax dt"
    by (simp add: maxValueFor_table typeMax_def)
next
  assume "maxValues dt' = None"
  then show "maxValueFor dt' = 0x7FFFFFFFFFFFFFFF"
    by (rule maxValueFor_fallback)
qed

theorem generated_integer_ceiling_witness:
  "(\<exists>g. fst (fieldValue 2026 (exampleField ''flag'' ''bool'')) = Some g
      \<and> (\<forall>v. yieldsInt g v \<longleftrightarrow> 0 \<le> v \<and> v \<le> 1))
   \<and> (\<exists>g. fst (fieldValue 2026 (exampleField ''qty'' ''smallint'')) = Some g
      \<and> (\<forall>v. yieldsInt g v \<longleftrightarrow> 0 \<le> v \<and> v \<le> 255))
   \<and> maxValueFor ''mediumint'' = 524287
   \<and> maxValueFor ''serial'' = 9223372036854775807"
  using generated_integer_ceiling [of "exampleField ''flag'' ''bool''" 2026 "''serial''"]
    generated_integer_ceiling [of "exampleField ''qty'' ''smallint''" 2026 "''serial''"]
  by (simp add: exampleField_def typeMax_def maxValues_def)

section \<open>Traces\<close>

lemma stmts_simps [simp]:
  "stmts [] = []" "stmts (x # h) = stmt_of x @ stmts h" "stmts (a @ b) = stmts a @ stmts b"
  by (simp_all add: stmts_def)

lemma sinkWrites_simps [simp]:
  "sinkWrites [] = []" "sinkWrites (x # h) = sink_of x @ sinkWrites h"
  "sinkWrites (a @ b) = sinkWrites a @ sinkWrites b"
  by (simp_all add: sinkWrites_def)

lemma dbExecs_simps [simp]:
  "dbExecs [] = []" "dbExecs (x # h) = exec_of x @ dbExecs h"
  "dbExecs (a @ b) = dbExecs a @ dbExecs b"
  by (simp_all add: dbExecs_def)

lemma sampleCalls_simps [simp]:
  "sampleCalls [] = []" "sampleCalls (x # h) = sample_of x @ sampleCalls h"
  "sampleCalls (a @ b) = sampleCalls a @ sampleCalls b"
  by (simp_all add: sampleCalls_def)

lemma texts_simps [simp]:
  "texts [] = []" "texts (x # h) = text_of x @ texts h" "texts (a @ b) = texts a @ texts b"
  by (simp_all add: texts_def)

lemma internal_simps [simp]:
  "internal []" "internal (x # h) \<longleftrightarrow> internal_event x \<and> internal h"
  "internal (a @ b) \<longleftrightarrow> internal a \<and> internal b"
  by (simp_all add: internal_def)

lemma internal_event_quiet:
  "internal_event ev \<Longrightarrow> stmt_of ev = [] \<and> sink_of ev = [] \<and> exec_of ev = []"
  by (cases ev) simp_all

lemma internal_quiet:
  "internal es \<Longrightarrow> stmts es = [] \<and> sinkWrites es = [] \<and> dbExecs es = []"
  by (induction es) (auto dest: internal_event_quiet)

lemma internal_event_no_text: "internal_event ev \<Longrightarrow> text_of ev = []"
  by (cases ev) simp_all

lemma internal_no_text: "internal es \<Longrightarrow> texts es = []"
  by (induction es) (auto dest: internal_event_no_text)

lemma text_of_counts: "map fst (text_of ev) = map fst (stmt_of ev)"
proof (cases ev)
  case (SinkWrite c t r)
  then show ?thesis by (cases r) simp_all
qed simp_all

lemma texts_counts: "map fst (texts h) = map fst (stmts h)"
  by (induction h) (simp_all add: text_of_counts)

lemma trace_emit [simp]: "trace (emit es w) = trace w @ es" "chans (emit es w) = chans w"
  by (simp_all add: emit_def)

section \<open>The generation phase\<close>

lemma fieldValue_internal: "internal (snd (fieldValue y f))"
  by (simp add: fieldValue_def Let_def)

lemma shape_poke: "map length (poke s j v b) = map length b"
proof (cases "s_row s < length b")
  case True
  then show ?thesis
    by (simp add: poke_def map_update list_update_same_conv)
next
  case False
  then show ?thesis by (simp add: poke_def list_update_beyond)
qed

lemma genCols_shape:
  "genCols y flds sl idxs st = Inr r \<Longrightarrow>
     map length (fst r) = map length (fst st) \<and> (internal (snd st) \<longrightarrow> internal (snd r))"
proof (induction idxs arbitrary: st)
  case Nil
  then show ?case by simp
next
  case (Cons i idxs)
  then show ?case
    by (auto simp: shape_poke fieldValue_internal split: if_splits dest!: Cons.IH)
qed

lemma generateFieldsRow_shape:
  "generateFieldsRow y flds sl b = Inr r \<Longrightarrow>
     map length (fst r) = map length b \<and> internal (snd r)"
  unfolding generateFieldsRow_def by (drule genCols_shape) simp

lemma genRows_shape:
  "genRows y flds width rows st = Inr r \<Longrightarrow>
     map length (fst r) = map length (fst st) \<and> (internal (snd st) \<longrightarrow> internal (snd r))"
proof (induction rows arbitrary: st)
  case Nil
  then show ?case by simp
next
  case (Cons i rows)
  then show ?case
    by (auto split: sum.splits dest!: Cons.IH generateFieldsRow_shape)
qed

section \<open>The sampling phase\<close>

lemma shape_fold_poke:
  "map length (fold (\<lambda>j b'. case f j of Keep \<Rightarrow> b' | Put v \<Rightarrow> poke s j v b') js b) = map length b"
  by (induction js arbitrary: b) (auto simp: shape_poke split: cellwrite.splits)

lemma applySample_shape: "map length (applySample f ss b) = map length b"
proof -
  have "map length (fold (\<lambda>i. fold (\<lambda>j b'. case f i j of Keep \<Rightarrow> b' | Put v \<Rightarrow> poke (ss ! i) j v b')
                  [0..<s_len (ss ! i)]) is b) = map length b" for "is"
    by (induction "is" arbitrary: b) (simp_all add: shape_fold_poke)
  then show ?thesis by (simp add: applySample_def)
qed

lemma sampleConstraints_effect:
  "sampleConstraints e ins vals cs colIdx b w = (res, b', w') \<Longrightarrow>
     map length b' = map length b \<and> chans w' = chans w
     \<and> (\<exists>new. trace w' = trace w @ new \<and> internal new)"
proof (induction cs arbitrary: colIdx b w)
  case Nil
  then show ?case by simp
next
  case (Cons c cs)
  show ?case
  proof (cases "subSlices vals colIdx (colIdx + length (ReferencedFields c))")
    case (Inl p)
    with Cons.prems show ?thesis by simp
  next
    case (Inr subSlice)
    let ?s = "createSamplerFromForeignkeyLinks
                (relationship (fklinks ins) (Name (table ins)) (ReferencedTableName c)) c subSlice"
    let ?res = "sampleResult e (trace w) ?s"
    let ?b1 = "applySample (fst ?res) subSlice b"
    let ?w1 = "emit [SampleCall ?s (snd ?res)] w"
    show ?thesis
    proof (cases "snd ?res")
      case (Some err)
      with Cons.prems Inr show ?thesis
        by (auto simp: Let_def applySample_shape)
    next
      case None
      with Cons.prems Inr have
        "sampleConstraints e ins vals cs (colIdx + length (ReferencedFields c)) ?b1 ?w1 = (res, b', w')"
        by (simp add: Let_def)
      from Cons.IH [OF this] show ?thesis
        by (auto simp: applySample_shape)
    qed
  qed
qed

lemma samplePhase_effect:
  "samplePhase e ins n b w = (res, w') \<Longrightarrow>
     chans w' = chans w \<and> (\<exists>new. trace w' = trace w @ new \<and> internal new)
     \<and> (\<forall>b'. res = Inr b' \<longrightarrow> map length b' = map length b)"
  unfolding samplePhase_def sampleFieldsTable_def Let_def
  by (auto split: sum.splits prod.splits option.splits dest!: sampleConstraints_effect)

lemma fillValues_effect:
  "fillValues e ins count w = (res, w') \<Longrightarrow>
     chans w' = chans w \<and> (\<exists>new. trace w' = trace w @ new \<and> internal new)
     \<and> (\<forall>b'. res = Inr b' \<longrightarrow> length b' = nat count)"
proof -
  let ?g = "FieldsToGenerate (table ins)"
  let ?s = "FieldsToSample (table ins)"
  let ?width = "length ?g + length ?s"
  let ?vals = "replicate (nat count) (replicate ?width None)"
  let ?gen = "if length ?g \<noteq> 0
               then genRows (yearNow e) ?g ?width [0..<nat count] (?vals, [])
               else Inr (?vals, [])"
  assume fv: "fillValues e ins count w = (res, w')"
  show ?thesis
  proof (cases ?gen)
    case (Inl p)
    with fv show ?thesis by (auto simp: fillValues_def Let_def)
  next
    case (Inr r)
    then have shape: "map length (fst r) = map length ?vals" and log: "internal (snd r)"
      by (auto split: if_splits dest!: genRows_shape)
    from shape have len: "length (fst r) = nat count"
      by (metis length_map length_replicate)
    show ?thesis
    proof (cases "length ?s \<noteq> 0")
      case True
      with fv Inr have "samplePhase e ins (nat count) (fst r) (emit (snd r) w) = (res, w')"
        by (simp add: fillValues_def Let_def)
      from samplePhase_effect [OF this] log len show ?thesis
        by (auto dest!: map_eq_imp_length_eq)
    next
      case False
      with fv Inr log len show ?thesis
        by (auto simp: fillValues_def Let_def)
    qed
  qed
qed

lemma fillValues_shape:
  assumes "fillValues e ins count w = (Inr b', w')"
  shows "map length b'
           = replicate (nat count)
               (length (FieldsToGenerate (table ins)) + length (FieldsToSample (table ins)))"
proof -
  let ?g = "FieldsToGenerate (table ins)"
  let ?s = "FieldsToSample (table ins)"
  let ?width = "length ?g + length ?s"
  let ?vals = "replicate (nat count) (replicate ?width None)"
  let ?gen = "if length ?g \<noteq> 0
               then genRows (yearNow e) ?g ?width [0..<nat count] (?vals, [])
               else Inr (?vals, [])"
  show ?thesis
  proof (cases ?gen)
    case (Inl p)
    with assms show ?thesis by (auto simp: fillValues_def Let_def)
  next
    case (Inr r)
    then have shape: "map length (fst r) = map length ?vals"
      by (auto split: if_splits dest!: genRows_shape)
    show ?thesis
    proof (cases "length ?s \<noteq> 0")
      case True
      with assms Inr have "samplePhase e ins (nat count) (fst r) (emit (snd r) w) = (Inr b', w')"
        by (simp add: fillValues_def Let_def)
      from samplePhase_effect [OF this] shape show ?thesis by simp
    next
      case False
      with assms Inr shape show ?thesis
        by (auto simp: fillValues_def Let_def)
    qed
  qed
qed

lemma genQuery_effect:
  "genQuery e ins count w = (res, w') \<Longrightarrow>
     chans w' = chans w \<and> (\<exists>new. trace w' = trace w @ new \<and> internal new)"
  unfolding genQuery_def
  by (auto split: if_splits prod.splits sum.splits dest!: fillValues_effect)

section \<open>One statement\<close>

lemma insert_chunk_small: "c < 1 \<Longrightarrow> insert_chunk e ins c d w = (Return 0 None, w)"
  by (simp add: insert_chunk_def)

lemma insert_chunk_effect:
  assumes "insert_chunk e ins c d w = (out, w')" and "1 \<le> c"
  shows "chans w' = chans w
    \<and> ((\<exists>p. (out = Panic p \<or> out = Crash p) \<and> stmts (trace w') = stmts (trace w))
       \<or> (\<exists>n. out = Return n None \<and> stmts (trace w') = stmts (trace w) @ [(c, Inr n)]
              \<and> (d \<longrightarrow> n = c))
       \<or> (\<exists>err. out = Return 0 (Some err)
              \<and> stmts (trace w') = stmts (trace w) @ [(c, Inl err)]))"
proof -
  obtain res w1 where gq: "genQuery e ins c w = (res, w1)"
    by (cases "genQuery e ins c w")
  from genQuery_effect [OF gq] obtain new where
    ch: "chans w1 = chans w" and tr: "trace w1 = trace w @ new" and "internal new"
    by blast
  then have st: "stmts (trace w1) = stmts (trace w)"
    by (simp add: internal_quiet)
  from assms gq ch st show ?thesis
    by (auto simp: insert_chunk_def split: sum.splits option.splits if_splits)
qed

lemma renderLoop_rows:
  "n = row + length vs \<Longrightarrow>
     renderLoop e h row n (map Some vs)
       = joinRows (map (\<lambda>(i, cells). rowString e h i cells) (zip [row..<n] vs))"
proof (induction vs arbitrary: row)
  case Nil
  then show ?case by simp
next
  case (Cons v vs)
  then have n: "n = Suc row + length vs" and lt: "row < n" by simp_all
  from lt have up: "[row..<n] = row # [Suc row..<n]" by (rule upt_conv_Cons)
  show ?case
  proof (cases vs)
    case Nil
    with Cons.prems show ?thesis by (simp add: up)
  next
    case (Cons v' vs')
    with n have lt': "Suc row < n" by simp
    from lt' have up': "[Suc row..<n] = Suc row # [Suc (Suc row)..<n]" by (rule upt_conv_Cons)
    have comma: "int row \<noteq> int n - 1" using lt' by simp
    have "renderLoop e h row n (map Some (v # vs))
        = rowString e h row v @ '','' @ renderLoop e h (Suc row) n (map Some vs)"
      using comma by simp
    also have "renderLoop e h (Suc row) n (map Some vs)
        = joinRows (map (\<lambda>(i, cells). rowString e h i cells) (zip [Suc row..<n] vs))"
      by (rule Cons.IH [OF n])
    finally show ?thesis by (simp add: up up' Cons)
  qed
qed

lemma genQuery_text:
  assumes "genQuery e ins count w = (Inr (Some q), w1)"
  shows "\<exists>vals. fillValues e ins count w = (Inr vals, w1)
           \<and> 1 \<le> count \<and> length vals = nat count
           \<and> (\<forall>v \<in> set vals. length v = length (FieldsToGenerate (table ins))
                                          + length (FieldsToSample (table ins)))
           \<and> q = statementText e ins (trace w1) vals"
proof -
  from assms have c: "1 \<le> count" by (auto simp: genQuery_def split: if_splits)
  with assms obtain vals where fv: "fillValues e ins count w = (Inr vals, w1)"
    and q: "q = insertHeader e (Schema (table ins)) (Name (table ins))
                  (FieldsToGenerate (table ins) @ FieldsToSample (table ins))
                @ renderLoop e (trace w1) 0 (length vals) (map Some vals)"
    by (auto simp: genQuery_def split: prod.splits sum.splits)
  from fillValues_effect [OF fv] have len: "length vals = nat count" by simp
  have "set (map length vals)
      \<subseteq> {length (FieldsToGenerate (table ins)) + length (FieldsToSample (table ins))}"
    unfolding fillValues_shape [OF fv] by (auto simp: set_replicate_conv_if)
  then have wd: "\<forall>v \<in> set vals. length v = length (FieldsToGenerate (table ins))
                                          + length (FieldsToSample (table ins))"
    by auto
  have "renderLoop e (trace w1) 0 (length vals) (map Some vals)
      = joinRows (map (\<lambda>(i, cells). rowString e (trace w1) i cells) (zip [0..<length vals] vals))"
    by (rule renderLoop_rows) simp
  with q have "q = statementText e ins (trace w1) vals" by (simp add: statementText_def)
  with fv c len wd show ?thesis by blast
qed

lemma insert_chunk_built:
  assumes "1 \<le> count" and "genQuery e ins count w = (Inr (Some q), w1)"
  shows "insert_chunk e ins count True w
           = (case writeResult e (trace w1) (q @ newline) of
                None \<Rightarrow> Return count None
              | Some err \<Rightarrow> Return 0 (Some err),
              emit [SinkWrite count (q @ newline) (writeResult e (trace w1) (q @ newline))] w1)"
    and "insert_chunk e ins count False w
           = (case execResult e (trace w1) q of
                Inl err \<Rightarrow> Return 0 (Some err)
              | Inr ra \<Rightarrow> Return ra None,
              emit (DBExec count q (execResult e (trace w1) q)
                    # (case execResult e (trace w1) q of
                         Inl err \<Rightarrow> [LogError ''failed to insert''
                                       [(''query'', q), (''error'', err)]]
                       | Inr ra \<Rightarrow> [])) w1)"
  using assms by (auto simp: insert_chunk_def split: option.splits sum.splits)

text \<open>
  Every statement handed to the sink or to the database is the text \<open>genQuery\<close> built
  for the count of the call: the header and that many rows.
\<close>

lemma insert_chunk_texts:
  assumes "insert_chunk e ins c d w = (out, w')"
  shows "\<exists>ts. texts (trace w') = texts (trace w) @ ts
           \<and> (\<forall>ct \<in> set ts. fst ct = c \<and> 1 \<le> c
                 \<and> (\<exists>h vals. length vals = nat c
                        \<and> (\<forall>v \<in> set vals. length v = length (FieldsToGenerate (table ins))
                                                       + length (FieldsToSample (table ins)))
                        \<and> snd ct = statementText e ins h vals @ (if d then newline else [])))"
proof (cases "c < 1")
  case True
  with assms have "w' = w" by (simp add: insert_chunk_small)
  then show ?thesis by (intro exI [of _ "[]"]) simp
next
  case False
  then have c: "1 \<le> c" by simp
  obtain res w1 where gq: "genQuery e ins c w = (res, w1)"
    by (cases "genQuery e ins c w")
  from genQuery_effect [OF gq] obtain new where
    "trace w1 = trace w @ new" "internal new" by blast
  then have quiet: "texts (trace w1) = texts (trace w)" by (simp add: internal_no_text)
  show ?thesis
  proof (cases "\<exists>q. res = Inr (Some q)")
    case False
    with assms gq c have "w' = w1"
      by (auto simp: insert_chunk_def split: sum.splits option.splits)
    with quiet show ?thesis by (intro exI [of _ "[]"]) simp
  next
    case True
    then obtain q where q: "genQuery e ins c w = (Inr (Some q), w1)" using gq by auto
    from genQuery_text [OF q] obtain vals where
      len: "length vals = nat c" and
      wd: "\<forall>v \<in> set vals. length v = length (FieldsToGenerate (table ins))
                                      + length (FieldsToSample (table ins))" and
      qt: "q = statementText e ins (trace w1) vals"
      by blast
    have tx: "texts (trace w') = texts (trace w) @ [(c, q @ (if d then newline else []))]"
    proof (cases d)
      case True
      with insert_chunk_built(1) [OF c q] assms quiet show ?thesis by auto
    next
      case False
      with insert_chunk_built(2) [OF c q] assms quiet show ?thesis
        by (cases "execResult e (trace w1) q") auto
    qed
    show ?thesis
    proof (intro exI [of _ "[(c, q @ (if d then newline else []))]"] conjI ballI)
      show "texts (trace w') = texts (trace w) @ [(c, q @ (if d then newline else []))]"
        by (rule tx)
    next
      fix ct
      assume "ct \<in> set [(c, q @ (if d then newline else []))]"
      then have ct: "ct = (c, q @ (if d then newline else []))" by simp
      show "fst ct = c" using ct by simp
      show "1 \<le> c" by (rule c)
      show "\<exists>h vals. length vals = nat c
              \<and> (\<forall>v \<in> set vals. length v = length (FieldsToGenerate (table ins))
                                             + length (FieldsToSample (table ins)))
              \<and> snd ct = statementText e ins h vals @ (if d then newline else [])"
        using len wd qt ct by (intro exI [of _ "trace w1"] exI [of _ vals]) simp
    qed
  qed
qed

lemma notify_effect:
  "notify e ins n w = (p, w') \<Longrightarrow>
     chans w' = chans w \<and> stmts (trace w') = stmts (trace w)"
  by (auto simp: notify_def split: option.splits if_splits)

section \<open>The loop of run\<close>

lemma committed_simps [simp]:
  "committed ok [] = ok"
  "committed ok (s # ss) = committed (wrap64 (ok + rows_of (snd s))) ss"
  by (simp_all add: committed_def)

lemma run_loop_effect:
  assumes b: "1 \<le> b"
  shows "run_loop e ins b d k i ok w = (res, ok', w') \<Longrightarrow>
     chans w' = chans w
     \<and> (\<exists>ss. stmts (trace w') = stmts (trace w) @ ss
          \<and> map fst ss = replicate (length ss) b
          \<and> length ss \<le> nat (k - i)
          \<and> list_all succeeded (butlast ss)
          \<and> ok' = committed ok ss
          \<and> (case res of
                None \<Rightarrow> length ss = nat (k - i) \<and> list_all succeeded ss
              | Some (Panic p) \<Rightarrow> list_all succeeded ss
              | Some (Crash p) \<Rightarrow> list_all succeeded ss
              | Some (Return n err) \<Rightarrow>
                  n = ok' \<and> ss \<noteq> [] \<and> (\<exists>x. err = Some x \<and> snd (last ss) = Inl x)))"
proof (induction "nat (k - i)" arbitrary: i ok w)
  case 0
  then have ge: "\<not> i < k" by simp
  with "0.prems" have "res = None" "ok' = ok" "w' = w"
    by (auto simp: run_loop.simps [of e ins b d k i ok w])
  with ge show ?case by simp
next
  case (Suc m)
  then have lt: "i < k" and m: "m = nat (k - (i + 1))" by simp_all
  obtain out w1 where ic: "insert_chunk e ins b d w = (out, w1)"
    by (cases "insert_chunk e ins b d w")
  from insert_chunk_effect [OF ic b] have ch1: "chans w1 = chans w" by simp
  from insert_chunk_effect [OF ic b] consider
      (panic) p where "out = Panic p" "stmts (trace w1) = stmts (trace w)"
    | (crash) p where "out = Crash p" "stmts (trace w1) = stmts (trace w)"
    | (ok) n where "out = Return n None" "stmts (trace w1) = stmts (trace w) @ [(b, Inr n)]"
    | (err) x where "out = Return 0 (Some x)" "stmts (trace w1) = stmts (trace w) @ [(b, Inl x)]"
    by blast
  then show ?case
  proof cases
    case panic
    with Suc.prems lt ic have "res = Some (Panic p)" "ok' = ok" "w' = w1"
      by (auto simp: run_loop.simps [of e ins b d k i ok w])
    with panic ch1 show ?thesis by simp
  next
    case crash
    with Suc.prems lt ic have "res = Some (Crash p)" "ok' = ok" "w' = w1"
      by (auto simp: run_loop.simps [of e ins b d k i ok w])
    with crash ch1 show ?thesis by simp
  next
    case err
    with Suc.prems lt ic have "res = Some (Return (wrap64 (ok + 0)) (Some x))"
        "ok' = wrap64 (ok + 0)" "w' = w1"
      by (auto simp: run_loop.simps [of e ins b d k i ok w])
    with err ch1 lt show ?thesis
      by (intro conjI exI [of _ "[(b, Inl x)]"]) simp_all
  next
    case ok
    obtain p w2 where nt: "notify e ins n w1 = (p, w2)"
      by (cases "notify e ins n w1")
    from notify_effect [OF nt] have ch2: "chans w2 = chans w1"
      and st2: "stmts (trace w2) = stmts (trace w1)" by simp_all
    show ?thesis
    proof (cases p)
      case (Some pp)
      with Suc.prems lt ic ok nt have "res = Some (Panic pp)" "ok' = wrap64 (ok + n)" "w' = w2"
        by (auto simp: run_loop.simps [of e ins b d k i ok w])
      with ok ch1 ch2 st2 lt show ?thesis
        by (intro conjI exI [of _ "[(b, Inr n)]"]) (simp_all add: succeeded_def)
    next
      case None
      with Suc.prems lt ic ok nt have
        "run_loop e ins b d k (i + 1) (wrap64 (ok + n)) w2 = (res, ok', w')"
        by (auto simp: run_loop.simps [of e ins b d k i ok w])
      from Suc.hyps(1) [OF m this] obtain ss where
        ch: "chans w' = chans w2" and
        st: "stmts (trace w') = stmts (trace w2) @ ss" and
        sz: "map fst ss = replicate (length ss) b" and
        ln: "length ss \<le> nat (k - (i + 1))" and
        bl: "list_all succeeded (butlast ss)" and
        cm: "ok' = committed (wrap64 (ok + n)) ss" and
        rs: "(case res of
                None \<Rightarrow> length ss = nat (k - (i + 1)) \<and> list_all succeeded ss
              | Some (Panic p) \<Rightarrow> list_all succeeded ss
              | Some (Crash p) \<Rightarrow> list_all succeeded ss
              | Some (Return n err) \<Rightarrow>
                  n = ok' \<and> ss \<noteq> [] \<and> (\<exists>x. err = Some x \<and> snd (last ss) = Inl x))"
        by blast
      have s0: "succeeded (b, Inr n)" by (simp add: succeeded_def)
      show ?thesis
      proof (intro conjI exI [of _ "(b, Inr n) # ss"])
        show "chans w' = chans w" using ch ch2 ch1 by simp
        show "stmts (trace w') = stmts (trace w) @ (b, Inr n) # ss"
          using st st2 ok by simp
        show "map fst ((b, Inr n) # ss) = replicate (length ((b, Inr n) # ss)) b"
          using sz by simp
        show "length ((b, Inr n) # ss) \<le> nat (k - i)" using ln lt by simp
        show "list_all succeeded (butlast ((b, Inr n) # ss))" using bl s0 by simp
        show "ok' = committed ok ((b, Inr n) # ss)" using cm by simp
        show "case res of
                None \<Rightarrow> length ((b, Inr n) # ss) = nat (k - i)
                   \<and> list_all succeeded ((b, Inr n) # ss)
              | Some (Panic p) \<Rightarrow> list_all succeeded ((b, Inr n) # ss)
              | Some (Crash p) \<Rightarrow> list_all succeeded ((b, Inr n) # ss)
              | Some (Return n' err) \<Rightarrow>
                  n' = ok' \<and> (b, Inr n) # ss \<noteq> []
                  \<and> (\<exists>x. err = Some x \<and> snd (last ((b, Inr n) # ss)) = Inl x)"
          using rs s0 lt by (auto split: option.splits outcome.splits)
      qed
    qed
  qed
qed

text \<open>What holds of the text of every statement of a call holds of those of the loop.\<close>

lemma notify_texts: "notify e ins n w = (p, w') \<Longrightarrow> texts (trace w') = texts (trace w)"
  by (auto simp: notify_def split: option.splits if_splits)

lemma texts_trans:
  assumes "\<exists>ts. texts (trace w1) = texts (trace w) @ ts \<and> (\<forall>ct \<in> set ts. P ct)"
    and "\<exists>ts. texts (trace w2) = texts (trace w1) @ ts \<and> (\<forall>ct \<in> set ts. P ct)"
  shows "\<exists>ts. texts (trace w2) = texts (trace w) @ ts \<and> (\<forall>ct \<in> set ts. P ct)"
proof -
  from assms obtain ts1 ts2 where
    "texts (trace w1) = texts (trace w) @ ts1" "\<forall>ct \<in> set ts1. P ct"
    "texts (trace w2) = texts (trace w1) @ ts2" "\<forall>ct \<in> set ts2. P ct"
    by blast
  then show ?thesis by (intro exI [of _ "ts1 @ ts2"]) auto
qed

lemma texts_same:
  "texts (trace w') = texts (trace w) \<Longrightarrow>
     \<exists>ts. texts (trace w') = texts (trace w) @ ts \<and> (\<forall>ct \<in> set ts. P ct)"
  by (intro exI [of _ "[]"]) simp

lemma run_loop_texts:
  assumes step: "\<And>w out w1. insert_chunk e ins b d w = (out, w1) \<Longrightarrow>
      \<exists>ts. texts (trace w1) = texts (trace w) @ ts \<and> (\<forall>ct \<in> set ts. P ct)"
  shows "run_loop e ins b d k i ok w = (res, ok', w') \<Longrightarrow>
     \<exists>ts. texts (trace w') = texts (trace w) @ ts \<and> (\<forall>ct \<in> set ts. P ct)"
proof (induction "nat (k - i)" arbitrary: i ok w)
  case 0
  then have "\<not> i < k" by simp
  with "0.prems" have "w' = w"
    by (auto simp: run_loop.simps [of e ins b d k i ok w])
  then show ?case by (intro texts_same) simp
next
  case (Suc m)
  then have lt: "i < k" and m: "m = nat (k - (i + 1))" by simp_all
  obtain out w1 where ic: "insert_chunk e ins b d w = (out, w1)"
    by (cases "insert_chunk e ins b d w")
  note first = step [OF ic]
  show ?case
  proof (cases "\<exists>n. out = Return n None")
    case False
    with Suc.prems lt ic have "w' = w1"
      by (auto simp: run_loop.simps [of e ins b d k i ok w] split: outcome.splits option.splits)
    with first show ?thesis by simp
  next
    case True
    then obtain n where out: "out = Return n None" ..
    obtain p w2 where nt: "notify e ins n w1 = (p, w2)"
      by (cases "notify e ins n w1")
    from texts_same [OF notify_texts [OF nt]]
    have second: "\<exists>ts. texts (trace w2) = texts (trace w1) @ ts \<and> (\<forall>ct \<in> set ts. P ct)" .
    show ?thesis
    proof (cases p)
      case (Some pp)
      with Suc.prems lt ic out nt have "w' = w2"
        by (auto simp: run_loop.simps [of e ins b d k i ok w])
      with texts_trans [OF first second] show ?thesis by simp
    next
      case None
      with Suc.prems lt ic out nt have
        "run_loop e ins b d k (i + 1) (wrap64 (ok + n)) w2 = (res, ok', w')"
        by (auto simp: run_loop.simps [of e ins b d k i ok w])
      from Suc.hyps(1) [OF m this]
      have "\<exists>ts. texts (trace w') = texts (trace w2) @ ts \<and> (\<forall>ct \<in> set ts. P ct)" .
      from texts_trans [OF texts_trans [OF first second] this] show ?thesis .
    qed
  qed
qed

section \<open>run\<close>

lemma chunks_plan:
  assumes c: "is_int64 count" and b: "1 \<le> b"
  shows "\<exists>k r. chunks count b = Inr (k, r)
           \<and> chunkPlan count b = replicate (nat k) b @ (if r < 1 then [] else [r])"
proof (cases "0 \<le> count")
  case True
  note f = divmod_facts [OF True b]
  have ch: "chunks count b = Inr (count div b, count - count div b * b)"
    by (rule chunks_nonneg [OF c b True])
  show ?thesis
  proof (cases "count = 0")
    case True
    with ch show ?thesis by (simp add: chunkPlan_def)
  next
    case False
    with True have "1 \<le> count" by simp
    moreover have "count - count div b * b < 1 \<longleftrightarrow> count - count div b * b = 0"
      using f(5) by linarith
    ultimately show ?thesis using ch by (simp add: chunkPlan_def)
  qed
next
  case False
  then have neg: "count < 0" by simp
  from chunks_neg [OF c b neg] obtain k r where
    "chunks count b = Inr (k, r)" "k \<le> 0" "r \<le> 0" by blast
  with neg show ?thesis by (simp add: chunkPlan_def)
qed

lemma is_int64_committed: "is_int64 ok \<Longrightarrow> is_int64 (committed ok ss)"
  by (induction ss arbitrary: ok) (simp_all add: is_int64_wrap64)

lemma committed_append: "committed ok (ss @ [s]) = wrap64 (committed ok ss + rows_of (snd s))"
  by (simp add: committed_def)

lemma notify_panic:
  "notify e ins n w = (Some p, w') \<Longrightarrow> \<exists>c. notifyChan ins = Some c \<and> \<not> chan_open w c"
  by (auto simp: notify_def split: option.splits if_splits)

lemma chan_open_cong: "chans w' = chans w \<Longrightarrow> chan_open w' c = chan_open w c"
  by (simp add: chan_open_def)

lemma take_plan:
  "n \<le> k \<Longrightarrow> take n (replicate k b @ rest) = replicate n (b::int)"
  by (simp add: min_def)

lemma run_body_effect:
  assumes c: "is_int64 count" and b: "1 \<le> b"
    and rb: "run_body e ins count b d w = (out, w')"
  shows "chans w' = chans w
     \<and> (\<exists>ss. stmts (trace w') = stmts (trace w) @ ss
          \<and> map fst ss = take (length ss) (chunkPlan count b)
          \<and> list_all succeeded (butlast ss)
          \<and> (case out of
                Panic p \<Rightarrow>
                  list_all succeeded ss \<or> (\<exists>ch. notifyChan ins = Some ch \<and> \<not> chan_open w ch)
              | Crash p \<Rightarrow> list_all succeeded ss
              | Return n err \<Rightarrow>
                  n = committed 0 ss
                  \<and> (case err of
                        None \<Rightarrow> list_all succeeded ss \<and> map fst ss = chunkPlan count b
                      | Some x \<Rightarrow> ss \<noteq> [] \<and> snd (last ss) = Inl x)))"
proof -
  from chunks_plan [OF c b] obtain k r where
    ch: "chunks count b = Inr (k, r)" and
    plan: "chunkPlan count b = replicate (nat k) b @ (if r < 1 then [] else [r])"
    by blast
  obtain res ok1 w1 where rl: "run_loop e ins b d k 0 0 w = (res, ok1, w1)"
    by (cases "run_loop e ins b d k 0 0 w")
  from run_loop_effect [OF b rl] obtain ss1 where
    ch1: "chans w1 = chans w" and
    st1: "stmts (trace w1) = stmts (trace w) @ ss1" and
    sz1: "map fst ss1 = replicate (length ss1) b" and
    ln0: "length ss1 \<le> nat (k - 0)" and
    bl1: "list_all succeeded (butlast ss1)" and
    cm1: "ok1 = committed 0 ss1" and
    rs0: "(case res of
             None \<Rightarrow> length ss1 = nat (k - 0) \<and> list_all succeeded ss1
           | Some (Panic p) \<Rightarrow> list_all succeeded ss1
           | Some (Crash p) \<Rightarrow> list_all succeeded ss1
           | Some (Return n err) \<Rightarrow>
               n = ok1 \<and> ss1 \<noteq> [] \<and> (\<exists>x. err = Some x \<and> snd (last ss1) = Inl x))"
    by blast
  from ln0 have ln1: "length ss1 \<le> nat k" by simp
  from rs0 have rs1: "(case res of
             None \<Rightarrow> length ss1 = nat k \<and> list_all succeeded ss1
           | Some (Panic p) \<Rightarrow> list_all succeeded ss1
           | Some (Crash p) \<Rightarrow> list_all succeeded ss1
           | Some (Return n err) \<Rightarrow>
               n = ok1 \<and> ss1 \<noteq> [] \<and> (\<exists>x. err = Some x \<and> snd (last ss1) = Inl x))"
    by (cases res) simp_all
  have pre1: "map fst ss1 = take (length ss1) (chunkPlan count b)"
    unfolding plan using sz1 ln1 by (simp add: take_plan)
  have ok1: "is_int64 ok1" unfolding cm1 by (rule is_int64_committed) (rule is_int64_0)
  show ?thesis
  proof (cases res)
    case (Some out1)
    with rb ch rl have "out = out1" "w' = w1" by (auto simp: run_body_def)
    with Some rs1 ch1 st1 pre1 bl1 cm1 show ?thesis
      by (intro conjI exI [of _ ss1]) (auto split: outcome.splits)
  next
    case None
    with rs1 have full: "length ss1 = nat k" and all1: "list_all succeeded ss1" by simp_all
    obtain out2 w2 where ic: "insert_chunk e ins r d w1 = (out2, w2)"
      by (cases "insert_chunk e ins r d w1")
    show ?thesis
    proof (cases "r < 1")
      case True
      with ic have o2: "out2 = Return 0 None" "w2 = w1" by (simp_all add: insert_chunk_small)
      obtain p w3 where nt: "notify e ins 0 w1 = (p, w3)" by (cases "notify e ins 0 w1")
      from notify_effect [OF nt] have ch3: "chans w3 = chans w1"
        and st3: "stmts (trace w3) = stmts (trace w1)" by simp_all
      have pl: "map fst ss1 = chunkPlan count b"
        unfolding plan using True sz1 full by simp
      show ?thesis
      proof (cases p)
        case (Some pp)
        with rb ch rl None ic o2 nt have "out = Panic pp" "w' = w3"
          by (auto simp: run_body_def)
        with ch3 ch1 st3 st1 pre1 bl1 all1 show ?thesis
          by (intro conjI exI [of _ ss1]) simp_all
      next
        case None': None
        with rb ch rl None ic o2 nt have "out = Return (wrap64 (ok1 + 0)) None" "w' = w3"
          by (auto simp: run_body_def)
        moreover have "wrap64 (ok1 + 0) = committed 0 ss1"
          using ok1 cm1 by (simp add: wrap64_id)
        ultimately show ?thesis using ch3 ch1 st3 st1 pre1 bl1 all1 pl
          by (intro conjI exI [of _ ss1]) simp_all
      qed
    next
      case False
      then have r1: "1 \<le> r" by simp
      have pl: "chunkPlan count b = map fst ss1 @ [r]"
        unfolding plan using False sz1 full by simp
      from insert_chunk_effect [OF ic r1] have ch2: "chans w2 = chans w1" by simp
      from insert_chunk_effect [OF ic r1] consider
          (panic) p where "out2 = Panic p" "stmts (trace w2) = stmts (trace w1)"
        | (crash) p where "out2 = Crash p" "stmts (trace w2) = stmts (trace w1)"
        | (ok) n where "out2 = Return n None" "stmts (trace w2) = stmts (trace w1) @ [(r, Inr n)]"
        | (err) x where "out2 = Return 0 (Some x)"
            "stmts (trace w2) = stmts (trace w1) @ [(r, Inl x)]"
        by blast
      then show ?thesis
      proof cases
        case panic
        with rb ch rl None ic have "out = Panic p" "w' = w2"
          by (auto simp: run_body_def)
        with panic ch2 ch1 st1 pre1 bl1 all1 show ?thesis
          by (intro conjI exI [of _ ss1]) simp_all
      next
        case crash
        with rb ch rl None ic have "out = Crash p" "w' = w2"
          by (auto simp: run_body_def)
        with crash ch2 ch1 st1 pre1 bl1 all1 show ?thesis
          by (intro conjI exI [of _ ss1]) simp_all
      next
        case ok
        obtain p w3 where nt: "notify e ins n w2 = (p, w3)" by (cases "notify e ins n w2")
        from notify_effect [OF nt] have ch3: "chans w3 = chans w2"
          and st3: "stmts (trace w3) = stmts (trace w2)" by simp_all
        let ?ss = "ss1 @ [(r, Inr n)]"
        have all: "list_all succeeded ?ss" using all1 by (simp add: succeeded_def)
        have pre: "map fst ?ss = take (length ?ss) (chunkPlan count b)"
          unfolding pl by simp
        have outc: "out = (case p of Some pp \<Rightarrow> Panic pp
                     | None \<Rightarrow> Return (wrap64 (ok1 + n)) None)" and w': "w' = w3"
          using rb ch rl None ic ok nt by (auto simp: run_body_def split: option.splits)
        have cm: "wrap64 (ok1 + n) = committed 0 ?ss"
          by (simp add: committed_append cm1)
        show ?thesis
          using outc w' ch3 ch2 ch1 st3 ok(2) st1 pre all all1 cm pl
          by (intro conjI exI [of _ ?ss]) (auto split: option.splits)
      next
        case err
        obtain p w3 where nt: "notify e ins 0 w2 = (p, w3)" by (cases "notify e ins 0 w2")
        from notify_effect [OF nt] have ch3: "chans w3 = chans w2"
          and st3: "stmts (trace w3) = stmts (trace w2)" by simp_all
        let ?ss = "ss1 @ [(r, Inl x)]"
        have pre: "map fst ?ss = take (length ?ss) (chunkPlan count b)"
          unfolding pl by simp
        have outc: "out = (case p of Some pp \<Rightarrow> Panic pp
                     | None \<Rightarrow> Return (wrap64 (ok1 + 0)) (Some x))" and w': "w' = w3"
          using rb ch rl None ic err nt by (auto simp: run_body_def split: option.splits)
        have cm: "wrap64 (ok1 + 0) = committed 0 ?ss"
          by (simp add: committed_append cm1)
        have closed: "p \<noteq> None \<Longrightarrow> \<exists>c. notifyChan ins = Some c \<and> \<not> chan_open w c"
        proof -
          assume "p \<noteq> None"
          then obtain pp where "notify e ins 0 w2 = (Some pp, w3)" using nt by auto
          from notify_panic [OF this] obtain c where
            "notifyChan ins = Some c" "\<not> chan_open w2 c" by blast
          moreover have "chan_open w2 c = chan_open w c"
            by (rule chan_open_cong) (simp add: ch2 ch1)
          ultimately show ?thesis by blast
        qed
        show ?thesis
          using outc w' ch3 ch2 ch1 st3 err(2) st1 pre all1 cm closed
          by (intro conjI exI [of _ ?ss]) (auto split: option.splits)
      qed
    qed
  qed
qed

lemma run_body_texts:
  assumes step: "\<And>c w out w1. insert_chunk e ins c d w = (out, w1) \<Longrightarrow>
      \<exists>ts. texts (trace w1) = texts (trace w) @ ts \<and> (\<forall>ct \<in> set ts. P ct)"
    and rb: "run_body e ins count b d w = (out, w')"
  shows "\<exists>ts. texts (trace w') = texts (trace w) @ ts \<and> (\<forall>ct \<in> set ts. P ct)"
proof (cases "chunks count b")
  case (Inl p)
  with rb have "w' = w" by (simp add: run_body_def)
  then show ?thesis by (intro texts_same) simp
next
  case (Inr kr)
  obtain k r where kr: "kr = (k, r)" by (cases kr)
  obtain res ok1 w1 where rl: "run_loop e ins b d k 0 0 w = (res, ok1, w1)"
    by (cases "run_loop e ins b d k 0 0 w")
  have first: "\<exists>ts. texts (trace w1) = texts (trace w) @ ts \<and> (\<forall>ct \<in> set ts. P ct)"
    by (rule run_loop_texts [OF step rl])
  show ?thesis
  proof (cases res)
    case (Some out1)
    with rb Inr kr rl have "w' = w1" by (simp add: run_body_def)
    with first show ?thesis by simp
  next
    case None
    obtain out2 w2 where ic: "insert_chunk e ins r d w1 = (out2, w2)"
      by (cases "insert_chunk e ins r d w1")
    note second = step [OF ic]
    show ?thesis
    proof (cases "\<exists>n err. out2 = Return n err")
      case False
      with rb Inr kr rl None ic have "w' = w2"
        by (auto simp: run_body_def split: outcome.splits)
      with texts_trans [OF first second] show ?thesis by simp
    next
      case True
      then obtain n err where o2: "out2 = Return n err" by blast
      obtain p w3 where nt: "notify e ins n w2 = (p, w3)" by (cases "notify e ins n w2")
      from rb Inr kr rl None ic o2 nt have "w' = w3"
        by (auto simp: run_body_def split: option.splits)
      with texts_trans [OF texts_trans [OF first second] texts_same [OF notify_texts [OF nt]]]
      show ?thesis by simp
    qed
  qed
qed

lemma close_chan_effect:
  "close_chan c w = Inr w' \<Longrightarrow> stmts (trace w') = stmts (trace w) \<and> \<not> chan_open w' c"
  by (auto simp: close_chan_def chan_open_def split: if_splits)

lemma close_chan_panic: "close_chan c w = Inl p \<Longrightarrow> \<not> chan_open w c"
  by (auto simp: close_chan_def split: if_splits)

lemma run_effect:
  assumes c: "is_int64 count" and b: "1 \<le> b"
    and r: "run e ins count b d w = (out, w')"
  shows "\<exists>ss. stmts (trace w') = stmts (trace w) @ ss
          \<and> map fst ss = take (length ss) (chunkPlan count b)
          \<and> list_all succeeded (butlast ss)
          \<and> (case out of
                Panic p \<Rightarrow>
                  list_all succeeded ss \<or> (\<exists>ch. notifyChan ins = Some ch \<and> \<not> chan_open w ch)
              | Crash p \<Rightarrow> list_all succeeded ss
              | Return n err \<Rightarrow>
                  n = committed 0 ss
                  \<and> (case err of
                        None \<Rightarrow> list_all succeeded ss \<and> map fst ss = chunkPlan count b
                      | Some x \<Rightarrow> ss \<noteq> [] \<and> snd (last ss) = Inl x))"
proof -
  obtain out1 w1 where rb: "run_body e ins count b d w = (out1, w1)"
    by (cases "run_body e ins count b d w")
  from run_body_effect [OF c b rb] obtain ss where
    ch1: "chans w1 = chans w" and
    st1: "stmts (trace w1) = stmts (trace w) @ ss" and
    pre: "map fst ss = take (length ss) (chunkPlan count b)" and
    bl: "list_all succeeded (butlast ss)" and
    rs: "(case out1 of
            Panic p \<Rightarrow>
              list_all succeeded ss \<or> (\<exists>ch. notifyChan ins = Some ch \<and> \<not> chan_open w ch)
          | Crash p \<Rightarrow> list_all succeeded ss
          | Return n err \<Rightarrow>
              n = committed 0 ss
              \<and> (case err of
                    None \<Rightarrow> list_all succeeded ss \<and> map fst ss = chunkPlan count b
                  | Some x \<Rightarrow> ss \<noteq> [] \<and> snd (last ss) = Inl x))"
    by blast
  show ?thesis
  proof (cases "notifyChan ins")
    case None
    with r rb have "out = out1" "w' = w1" by (simp_all add: run_def)
    with st1 pre bl rs show ?thesis by blast
  next
    case (Some ch)
    show ?thesis
    proof (cases "\<exists>p. out1 = Crash p")
      case True
      with r rb Some have "out = out1" "w' = w1" by (auto simp: run_def)
      with st1 pre bl rs show ?thesis by blast
    next
      case False
      then have deferred: "run e ins count b d w
          = (case close_chan ch w1 of Inl p \<Rightarrow> (Panic p, w1) | Inr w2 \<Rightarrow> (out1, w2))"
        using rb Some by (cases out1) (auto simp: run_def split: sum.splits)
      show ?thesis
      proof (cases "close_chan ch w1")
        case (Inl p)
        with r deferred have o: "out = Panic p" "w' = w1" by simp_all
        from close_chan_panic [OF Inl] have "\<not> chan_open w ch"
          using chan_open_cong [OF ch1] by simp
        with o Some st1 pre bl show ?thesis
          by (intro exI [of _ ss]) simp
      next
        case (Inr w2)
        with r deferred have o: "out = out1" "w' = w2" by simp_all
        from close_chan_effect [OF Inr] have "stmts (trace w2) = stmts (trace w1)" by simp
        with o st1 pre bl rs show ?thesis
          by (intro exI [of _ ss]) simp
      qed
    qed
  qed
qed

lemma close_chan_texts: "close_chan c w = Inr w' \<Longrightarrow> texts (trace w') = texts (trace w)"
  by (auto simp: close_chan_def split: if_splits)

lemma run_texts:
  assumes step: "\<And>c w out w1. insert_chunk e ins c d w = (out, w1) \<Longrightarrow>
      \<exists>ts. texts (trace w1) = texts (trace w) @ ts \<and> (\<forall>ct \<in> set ts. P ct)"
    and r: "run e ins count b d w = (out, w')"
  shows "\<exists>ts. texts (trace w') = texts (trace w) @ ts \<and> (\<forall>ct \<in> set ts. P ct)"
proof -
  obtain out1 w1 where rb: "run_body e ins count b d w = (out1, w1)"
    by (cases "run_body e ins count b d w")
  have body: "\<exists>ts. texts (trace w1) = texts (trace w) @ ts \<and> (\<forall>ct \<in> set ts. P ct)"
    by (rule run_body_texts [OF step rb])
  have "w' = w1 \<or> (\<exists>c. close_chan c w1 = Inr w')"
    using r rb by (auto simp: run_def split: option.splits outcome.splits sum.splits)
  then show ?thesis
  proof
    assume "w' = w1"
    with body show ?thesis by simp
  next
    assume "\<exists>c. close_chan c w1 = Inr w'"
    then obtain c where "close_chan c w1 = Inr w'" ..
    from texts_trans [OF body texts_same [OF close_chan_texts [OF this]]] show ?thesis .
  qed
qed

lemma same_counts:
  assumes "stmts h' = stmts h @ ss" and "texts h' = texts h @ ts"
  shows "map fst ts = map fst ss"
proof -
  have "map fst (texts h) @ map fst ts = map fst (stmts h) @ map fst ss"
    using texts_counts [of h'] assms by simp
  then show ?thesis by (simp add: texts_counts)
qed

lemma committed_failed_last:
  "committed 0 (ss @ [(c, Inl x)]) = committed 0 ss"
  by (simp add: committed_append wrap64_id is_int64_committed is_int64_0)

section \<open>The batch planner\<close>

text \<open>
  C1. For every count and every bulksize of at least 1, \<open>run\<close> issues floor(count /
  bulksize) statements of bulksize rows each, then one statement of the remaining
  count - floor(count / bulksize) * bulksize rows, which is skipped when the remainder is
  0; for a count below 1 no statement is issued and zero rows are reported. The
  statements issued are always the planned ones in their order; they are all of them
  whenever \<open>run\<close> returns without error (a failing statement ends the run, see C3).
  The text handed to the sink or to the database for a statement of c rows is the header
  followed by exactly c rendered rows, each of one cell per column (and the newline, in
  a dry run).
\<close>

theorem run_issues_chunk_plan:
  assumes "is_int64 count" and "1 \<le> bulksize"
    and "run e ins count bulksize dryRun w = (out, w')"
  shows "\<exists>ss ts. stmts (trace w') = stmts (trace w) @ ss
          \<and> map fst ss = take (length ss) (chunkPlan count bulksize)
          \<and> ((\<exists>n. out = Return n None) \<longrightarrow>
                map fst ss = chunkPlan count bulksize \<and> list_all succeeded ss)
          \<and> (count < 1 \<longrightarrow>
                ss = [] \<and> (\<forall>n err. out = Return n err \<longrightarrow> n = 0 \<and> err = None))
          \<and> texts (trace w') = texts (trace w) @ ts
          \<and> map fst ts = map fst ss
          \<and> (\<forall>ct \<in> set ts.
                1 \<le> fst ct
                \<and> (\<exists>h vals. length vals = nat (fst ct)
                       \<and> (\<forall>v \<in> set vals. length v = length (FieldsToGenerate (table ins))
                                                      + length (FieldsToSample (table ins)))
                       \<and> snd ct = statementText e ins h vals
                                    @ (if dryRun then newline else [])))"
proof -
  from run_effect [OF assms] obtain ss where
    st: "stmts (trace w') = stmts (trace w) @ ss" and
    pre: "map fst ss = take (length ss) (chunkPlan count bulksize)" and
    rs: "(case out of
            Panic p \<Rightarrow>
              list_all succeeded ss \<or> (\<exists>ch. notifyChan ins = Some ch \<and> \<not> chan_open w ch)
          | Crash p \<Rightarrow> list_all succeeded ss
          | Return n err \<Rightarrow>
              n = committed 0 ss
              \<and> (case err of
                    None \<Rightarrow> list_all succeeded ss \<and> map fst ss = chunkPlan count bulksize
                  | Some x \<Rightarrow> ss \<noteq> [] \<and> snd (last ss) = Inl x))"
    by blast
  let ?P = "\<lambda>ct. 1 \<le> fst ct
                \<and> (\<exists>h vals. length vals = nat (fst ct)
                       \<and> (\<forall>v \<in> set vals. length v = length (FieldsToGenerate (table ins))
                                                      + length (FieldsToSample (table ins)))
                       \<and> snd ct = statementText e ins h vals
                                    @ (if dryRun then newline else []))"
  have "\<exists>ts. texts (trace w') = texts (trace w) @ ts \<and> (\<forall>ct \<in> set ts. ?P ct)"
  proof (rule run_texts [OF _ assms(3)])
    fix c w0 out0 w1
    assume "insert_chunk e ins c dryRun w0 = (out0, w1)"
    from insert_chunk_texts [OF this]
    show "\<exists>ts. texts (trace w1) = texts (trace w0) @ ts \<and> (\<forall>ct \<in> set ts. ?P ct)"
      by fastforce
  qed
  then obtain ts where
    tx: "texts (trace w') = texts (trace w) @ ts" and rows: "\<forall>ct \<in> set ts. ?P ct"
    by blast
  have cnt: "map fst ts = map fst ss" by (rule same_counts [OF st tx])
  have small: "ss = []" if "count < 1"
    using pre that by (simp add: chunkPlan_def)
  have zero: "ss = [] \<and> (\<forall>n err. out = Return n err \<longrightarrow> n = 0 \<and> err = None)" if "count < 1"
    using small [OF that] rs by (auto split: option.splits)
  have full: "map fst ss = chunkPlan count bulksize \<and> list_all succeeded ss"
    if "\<exists>n. out = Return n None"
    using that rs by auto
  show ?thesis
  proof (intro exI [of _ ss] exI [of _ ts] conjI impI)
    show "stmts (trace w') = stmts (trace w) @ ss" by (rule st)
    show "map fst ss = take (length ss) (chunkPlan count bulksize)" by (rule pre)
    show "map fst ss = chunkPlan count bulksize" if "\<exists>n. out = Return n None"
      using full [OF that] by simp
    show "list_all succeeded ss" if "\<exists>n. out = Return n None"
      using full [OF that] by simp
    show "ss = []" if "count < 1" using zero [OF that] by simp
    show "\<forall>n err. out = Return n err \<longrightarrow> n = 0 \<and> err = None" if "count < 1"
      using zero [OF that] by simp
    show "texts (trace w') = texts (trace w) @ ts" by (rule tx)
    show "map fst ts = map fst ss" by (rule cnt)
    show "\<forall>ct \<in> set ts. ?P ct" by (rule rows)
  qed
qed

theorem run_issues_chunk_plan_witness:
  "is_int64 11 \<and> (1::int) \<le> 4
   \<and> fst (run (exampleEnv None False) exampleInsert 11 4 True emptyWorld) = Return 11 None
   \<and> chunkPlan 11 4 = [4, 4, 3]
   \<and> (\<exists>ss ts. stmts (trace (snd (run (exampleEnv None False) exampleInsert 11 4 True emptyWorld)))
                = stmts (trace emptyWorld) @ ss
          \<and> map fst ss = [4, 4, 3]
          \<and> texts (trace (snd (run (exampleEnv None False) exampleInsert 11 4 True emptyWorld)))
                = texts (trace emptyWorld) @ ts
          \<and> map fst ts = [4, 4, 3])
   \<and> texts (trace (snd (run (exampleEnv None False) exampleInsert 11 4 True emptyWorld)))
       = [(4, ''INSERT INTO shop.orders VALUES (r),(r),(r),(r)'' @ newline),
          (4, ''INSERT INTO shop.orders VALUES (r),(r),(r),(r)'' @ newline),
          (3, ''INSERT INTO shop.orders VALUES (r),(r),(r)'' @ newline)]
   \<and> texts (trace (snd (run (exampleEnv None False) exampleInsert 7 4 False emptyWorld)))
       = [(4, ''INSERT INTO shop.orders VALUES (r),(r),(r),(r)''),
          (3, ''INSERT INTO shop.orders VALUES (r),(r),(r)'')]
   \<and> (\<exists>ss. stmts (trace (snd (run (exampleEnv None False) exampleInsert 0 4 False emptyWorld)))
             = stmts (trace emptyWorld) @ ss
          \<and> ss = [])"
proof -
  let ?r = "run (exampleEnv None False) exampleInsert 11 4 True emptyWorld"
  let ?z = "run (exampleEnv None False) exampleInsert 0 4 False emptyWorld"
  have i: "is_int64 11" "is_int64 0" by (simp_all add: is_int64_def)
  have b: "(1::int) \<le> 4" by simp
  have out: "fst ?r = Return 11 None" by code_simp
  have plan: "chunkPlan 11 4 = [4, 4, 3]" by code_simp
  have plan0: "chunkPlan 0 4 = []" by code_simp
  have dry: "texts (trace (snd ?r))
       = [(4, ''INSERT INTO shop.orders VALUES (r),(r),(r),(r)'' @ newline),
          (4, ''INSERT INTO shop.orders VALUES (r),(r),(r),(r)'' @ newline),
          (3, ''INSERT INTO shop.orders VALUES (r),(r),(r)'' @ newline)]"
    by code_simp
  have real: "texts (trace (snd (run (exampleEnv None False) exampleInsert 7 4 False emptyWorld)))
       = [(4, ''INSERT INTO shop.orders VALUES (r),(r),(r),(r)''),
          (3, ''INSERT INTO shop.orders VALUES (r),(r),(r)'')]"
    by code_simp
  have pr: "?r = (fst ?r, snd ?r)" and pz: "?z = (fst ?z, snd ?z)" by simp_all
  from run_issues_chunk_plan [OF i(1) b pr] obtain ss ts where
    "stmts (trace (snd ?r)) = stmts (trace emptyWorld) @ ss"
    "(\<exists>n. fst ?r = Return n None) \<longrightarrow> map fst ss = chunkPlan 11 4 \<and> list_all succeeded ss"
    "texts (trace (snd ?r)) = texts (trace emptyWorld) @ ts"
    "map fst ts = map fst ss"
    by blast
  with out plan
  have full: "\<exists>ss ts. stmts (trace (snd ?r)) = stmts (trace emptyWorld) @ ss
      \<and> map fst ss = [4, 4, 3]
      \<and> texts (trace (snd ?r)) = texts (trace emptyWorld) @ ts
      \<and> map fst ts = [4, 4, 3]"
    by auto
  from run_issues_chunk_plan [OF i(2) b pz] obtain ss0 where
    "stmts (trace (snd ?z)) = stmts (trace emptyWorld) @ ss0"
    "(0::int) < 1 \<longrightarrow> ss0 = [] \<and> (\<forall>n err. fst ?z = Return n err \<longrightarrow> n = 0 \<and> err = None)"
    by blast
  then have none: "\<exists>ss. stmts (trace (snd ?z)) = stmts (trace emptyWorld) @ ss \<and> ss = []"
    by auto
  from i b out plan full dry real none show ?thesis by blast
qed

section \<open>Partial failure\<close>

text \<open>
  C3. In every run in which a planned statement fails (the database refuses it, or the
  dry-run write fails), that statement is the last one issued: every statement before it
  succeeded and none is issued after it. \<open>run\<close> then returns the rows reported by the
  statements before the failing one, the failing statement counting for zero, together
  with that statement's error. (Only a notify channel that was closed before the run
  began can turn this return into a panic.) A run that returns without error has issued
  only successful statements and returns the sum of their rows.
\<close>

theorem run_stops_at_failing_statement:
  assumes "is_int64 count" and "1 \<le> bulksize"
    and "run e ins count bulksize dryRun w = (out, w')"
  shows "\<exists>ss. stmts (trace w') = stmts (trace w) @ ss
          \<and> list_all succeeded (butlast ss)
          \<and> (\<forall>n x. out = Return n (Some x) \<longrightarrow>
                ss \<noteq> [] \<and> snd (last ss) = Inl x \<and> n = committed 0 (butlast ss))
          \<and> (\<forall>n. out = Return n None \<longrightarrow> list_all succeeded ss \<and> n = committed 0 ss)
          \<and> (\<not> list_all succeeded ss \<longrightarrow>
                (\<exists>x. out = Return (committed 0 (butlast ss)) (Some x))
                \<or> ((\<exists>p. out = Panic p)
                    \<and> (\<exists>ch. notifyChan ins = Some ch \<and> \<not> chan_open w ch)))"
proof -
  from run_effect [OF assms] obtain ss where
    st: "stmts (trace w') = stmts (trace w) @ ss" and
    bl: "list_all succeeded (butlast ss)" and
    rs: "(case out of
            Panic p \<Rightarrow>
              list_all succeeded ss \<or> (\<exists>ch. notifyChan ins = Some ch \<and> \<not> chan_open w ch)
          | Crash p \<Rightarrow> list_all succeeded ss
          | Return n err \<Rightarrow>
              n = committed 0 ss
              \<and> (case err of
                    None \<Rightarrow> list_all succeeded ss \<and> map fst ss = chunkPlan count bulksize
                  | Some x \<Rightarrow> ss \<noteq> [] \<and> snd (last ss) = Inl x))"
    by blast
  have cut: "committed 0 ss = committed 0 (butlast ss)" if "ss \<noteq> []" "snd (last ss) = Inl x" for x
  proof -
    from that have "ss = butlast ss @ [(fst (last ss), Inl x)]"
      by (metis append_butlast_last_id prod.collapse)
    then show ?thesis using committed_failed_last by metis
  qed
  have failed: "ss \<noteq> [] \<and> snd (last ss) = Inl x \<and> n = committed 0 (butlast ss)"
    if "out = Return n (Some x)" for n x
    using that rs cut by auto
  have fine: "list_all succeeded ss \<and> n = committed 0 ss" if "out = Return n None" for n
    using that rs by auto
  have stop: "(\<exists>x. out = Return (committed 0 (butlast ss)) (Some x))
                \<or> ((\<exists>p. out = Panic p)
                    \<and> (\<exists>ch. notifyChan ins = Some ch \<and> \<not> chan_open w ch))"
    if "\<not> list_all succeeded ss"
  proof (cases out)
    case (Panic p)
    with rs that show ?thesis by auto
  next
    case (Crash p)
    with rs that show ?thesis by simp
  next
    case (Return n err)
    with rs that obtain x where "err = Some x" by (cases err) auto
    with Return failed show ?thesis by auto
  qed
  from st bl failed fine stop show ?thesis by blast
qed

theorem run_stops_at_failing_statement_witness:
  "is_int64 11 \<and> (1::int) \<le> 4
   \<and> fst (run (exampleEnv (Some 1) False) exampleInsert 11 4 False emptyWorld)
       = Return 4 (Some ''deadlock'')
   \<and> fst (run (exampleEnv (Some 1) False) exampleInsert 11 4 True emptyWorld)
       = Return 4 (Some ''disk full'')
   \<and> stmts (trace (snd (run (exampleEnv (Some 1) False) exampleInsert 11 4 True emptyWorld)))
       = [(4, Inr 4), (4, Inl ''disk full'')]
   \<and> (\<exists>ss. stmts (trace (snd (run (exampleEnv (Some 1) False) exampleInsert 11 4 True emptyWorld)))
             = stmts (trace emptyWorld) @ ss
          \<and> list_all succeeded (butlast ss)
          \<and> ss \<noteq> [] \<and> snd (last ss) = Inl ''disk full'' \<and> 4 = committed 0 (butlast ss))"
proof -
  let ?r = "run (exampleEnv (Some 1) False) exampleInsert 11 4 True emptyWorld"
  have i: "is_int64 11" by (simp add: is_int64_def)
  have b: "(1::int) \<le> 4" by simp
  have db: "fst (run (exampleEnv (Some 1) False) exampleInsert 11 4 False emptyWorld)
      = Return 4 (Some ''deadlock'')" by code_simp
  have out: "fst ?r = Return 4 (Some ''disk full'')" by code_simp
  have tr: "stmts (trace (snd ?r)) = [(4, Inr 4), (4, Inl ''disk full'')]" by code_simp
  have pr: "?r = (fst ?r, snd ?r)" by simp
  from run_stops_at_failing_statement [OF i b pr] out
  have "\<exists>ss. stmts (trace (snd ?r)) = stmts (trace emptyWorld) @ ss
          \<and> list_all succeeded (butlast ss)
          \<and> ss \<noteq> [] \<and> snd (last ss) = Inl ''disk full'' \<and> 4 = committed 0 (butlast ss)"
    by auto
  with i b db out tr show ?thesis by blast
qed

section \<open>Rendering a chunk\<close>

text \<open>
  C7. For every chunk of at least one row, once both phases have completed, the rendered
  statement is the header followed by the rows in the order they were allocated, with
  exactly one comma between consecutive rows and none after the last; the chunk has one
  rendered row per requested row. The loop skips a row whose slice is \<open>nil\<close> (no row of
  a chunk is: \<open>genQuery\<close> makes every one of them).
\<close>

theorem genQuery_renders_rows_in_order:
  assumes "1 \<le> count" and "fillValues e ins count w = (Inr vals, w1)"
  shows "genQuery e ins count w
           = (Inr (Some
                (insertHeader e (Schema (table ins)) (Name (table ins))
                   (FieldsToGenerate (table ins) @ FieldsToSample (table ins))
                 @ joinRows (map (\<lambda>(i, cells). rowString e (trace w1) i cells)
                              (zip [0..<nat count] vals)))),
              w1)
         \<and> length vals = nat count
         \<and> (\<forall>h row n rest.
               renderLoop e h row n (None # rest) = renderLoop e h (Suc row) n rest)"
proof -
  from fillValues_effect [OF assms(2)] have len: "length vals = nat count" by simp
  have "renderLoop e (trace w1) 0 (length vals) (map Some vals)
      = joinRows (map (\<lambda>(i, cells). rowString e (trace w1) i cells) (zip [0..<length vals] vals))"
    by (rule renderLoop_rows) simp
  with assms len show ?thesis by (simp add: genQuery_def)
qed

theorem genQuery_renders_rows_in_order_witness:
  "(1::int) \<le> 3
   \<and> fst (fillValues (exampleEnv None False) exampleInsert 3 emptyWorld)
       = Inr (replicate 3 [Some (RandomInt ''qty'' 255 False), None, Some (SampledValue ''7'')])
   \<and> fst (genQuery (exampleEnv None False) exampleInsert 3 emptyWorld)
       = Inr (Some ''INSERT INTO shop.orders VALUES (r),(r),(r)'')"
proof -
  let ?f = "fillValues (exampleEnv None False) exampleInsert 3 emptyWorld"
  let ?vals = "replicate 3 [Some (RandomInt ''qty'' 255 False), None, Some (SampledValue ''7'')]"
  have c: "(1::int) \<le> 3" by simp
  have fv: "fst ?f = Inr ?vals" by code_simp
  then have pf: "?f = (Inr ?vals, snd ?f)" by (metis prod.collapse)
  have hd: "insertHeader (exampleEnv None False) (Schema (table exampleInsert))
              (Name (table exampleInsert))
              (FieldsToGenerate (table exampleInsert) @ FieldsToSample (table exampleInsert))
            = ''INSERT INTO shop.orders VALUES ''"
    by code_simp
  have rows: "joinRows (map (\<lambda>(i, cells). rowString (exampleEnv None False) (trace (snd ?f)) i cells)
                (zip [0..<nat 3] ?vals)) = ''(r),(r),(r)''"
    by (simp add: exampleEnv_def numeral_3_eq_3 upt_rec)
  from genQuery_renders_rows_in_order [OF c pf] hd rows
  have "fst (genQuery (exampleEnv None False) exampleInsert 3 emptyWorld)
      = Inr (Some ''INSERT INTO shop.orders VALUES (r),(r),(r)'')"
    by simp
  with c fv show ?thesis by blast
qed

section \<open>Dry run\<close>

text \<open>
  C8. For every chunk of at least one row executed in dry-run mode, the statement's text
  followed by a newline is what is written to the sink, nothing is executed on the
  database, and the row count reported for the chunk is the requested count (when the
  sink accepts the write; a write error is reported with zero rows, see C3).
\<close>

theorem dry_run_writes_statement:
  assumes "1 \<le> count" and "genQuery e ins count w = (Inr (Some q), w1)"
    and "insert_chunk e ins count True w = (out, w')"
  shows "sinkWrites (trace w') = sinkWrites (trace w) @ [q @ newline]
         \<and> last (q @ newline) = CHR 0x0A
         \<and> dbExecs (trace w') = dbExecs (trace w)
         \<and> (writeResult e (trace w1) (q @ newline) = None \<longrightarrow> out = Return count None)
         \<and> (\<forall>err. writeResult e (trace w1) (q @ newline) = Some err \<longrightarrow>
               out = Return 0 (Some err))"
proof -
  from genQuery_effect [OF assms(2)] obtain new where
    tr: "trace w1 = trace w @ new" and "internal new" by blast
  then have quiet: "sinkWrites (trace w1) = sinkWrites (trace w)"
      "dbExecs (trace w1) = dbExecs (trace w)"
    by (simp_all add: internal_quiet)
  from insert_chunk_built(1) [OF assms(1,2)] assms(3) have
    out: "out = (case writeResult e (trace w1) (q @ newline) of
                   None \<Rightarrow> Return count None
                 | Some err \<Rightarrow> Return 0 (Some err))" and
    w': "w' = emit [SinkWrite count (q @ newline) (writeResult e (trace w1) (q @ newline))] w1"
    by simp_all
  from out w' quiet show ?thesis by (simp add: newline_def)
qed

theorem dry_run_writes_statement_witness:
  "(1::int) \<le> 2
   \<and> fst (genQuery (exampleEnv None False) exampleInsert 2 emptyWorld)
       = Inr (Some ''INSERT INTO shop.orders VALUES (r),(r)'')
   \<and> sinkWrites (trace (snd (insert_chunk (exampleEnv None False) exampleInsert 2 True emptyWorld)))
       = sinkWrites (trace emptyWorld) @ [''INSERT INTO shop.orders VALUES (r),(r)'' @ newline]
   \<and> dbExecs (trace (snd (insert_chunk (exampleEnv None False) exampleInsert 2 True emptyWorld)))
       = dbExecs (trace emptyWorld)
   \<and> fst (insert_chunk (exampleEnv None False) exampleInsert 2 True emptyWorld) = Return 2 None"
proof -
  let ?g = "genQuery (exampleEnv None False) exampleInsert 2 emptyWorld"
  let ?i = "insert_chunk (exampleEnv None False) exampleInsert 2 True emptyWorld"
  let ?q = "''INSERT INTO shop.orders VALUES (r),(r)''"
  have c: "(1::int) \<le> 2" by simp
  have g: "fst ?g = Inr (Some ?q)" by code_simp
  then have pg: "?g = (Inr (Some ?q), snd ?g)" by (metis prod.collapse)
  have pi: "?i = (fst ?i, snd ?i)" by simp
  have ok: "writeResult (exampleEnv None False) (trace (snd ?g)) (?q @ newline) = None"
    by (simp add: exampleEnv_def)
  from dry_run_writes_statement [OF c pg pi] ok
  have "sinkWrites (trace (snd ?i)) = sinkWrites (trace emptyWorld) @ [?q @ newline]
      \<and> dbExecs (trace (snd ?i)) = dbExecs (trace emptyWorld)
      \<and> fst ?i = Return 2 None"
    by simp
  with c g show ?thesis by blast
qed

section \<open>What the sampling phase does\<close>

lemma subSliceOf_create [simp]:
  "subSliceOf (createSamplerFromForeignkeyLinks fklink c ss) = ss"
  by (simp add: createSamplerFromForeignkeyLinks_def)

lemma subSlices_eq:
  "subSlices vals lo hi = Inr ss \<Longrightarrow>
     ss = map (\<lambda>v. \<lparr>s_row = s_row v, s_off = s_off v + lo, s_len = hi - lo,
                    s_cap = s_cap v - lo\<rparr>) vals"
proof (induction vals arbitrary: ss)
  case Nil
  then show ?case by simp
next
  case (Cons v vals)
  then show ?case
    by (auto simp: reslice_def split: sum.splits if_splits)
qed

lemma sampledViews_eq:
  "sampledViews width g rows = Inr vs \<Longrightarrow>
     vs = map (\<lambda>i. \<lparr>s_row = i, s_off = g, s_len = width - g, s_cap = width - g\<rparr>) rows"
proof (induction rows arbitrary: vs)
  case Nil
  then show ?case by simp
next
  case (Cons i rows)
  then show ?case
    by (auto simp: suffixView_def reslice_def rowSlice_def split: sum.splits if_splits)
qed

lemma sampledViews_total:
  "g \<le> width \<Longrightarrow> \<exists>vs. sampledViews width g rows = Inr vs"
  by (induction rows) (auto simp: suffixView_def reslice_def rowSlice_def)

lemma offsetOf_simps [simp]:
  "offsetOf cs 0 = 0"
  "offsetOf (c # cs) (Suc k) = length (ReferencedFields c) + offsetOf cs k"
  by (simp_all add: offsetOf_def)

lemma sampleCalls_callEvents [simp]: "sampleCalls (map callEvent called) = called"
  by (induction called) (simp_all add: callEvent_def)

lemma sampleConstraints_calls:
  "sampleConstraints e ins vals cs colIdx b w = (res, b', w') \<Longrightarrow>
     \<exists>called. trace w' = trace w @ map callEvent called
       \<and> length called \<le> length cs
       \<and> list_all succeededCall (butlast called)
       \<and> (\<forall>k < length called.
             subSliceOf (fst (called ! k))
               = map (\<lambda>v. \<lparr>s_row = s_row v, s_off = s_off v + (colIdx + offsetOf cs k),
                              s_len = length (ReferencedFields (cs ! k)),
                              s_cap = s_cap v - (colIdx + offsetOf cs k)\<rparr>) vals)
       \<and> (case res of
             Inl p \<Rightarrow> list_all succeededCall called
           | Inr None \<Rightarrow> list_all succeededCall called \<and> length called = length cs
           | Inr (Some werr) \<Rightarrow>
               called \<noteq> []
               \<and> (\<exists>err. snd (last called) = Some err
                     \<and> werr = errorsWrap err ''sampleFieldsTable''))"
proof (induction cs arbitrary: colIdx b w)
  case Nil
  then show ?case by (intro exI [of _ "[]"]) auto
next
  case (Cons c cs)
  let ?n = "length (ReferencedFields c)"
  show ?case
  proof (cases "subSlices vals colIdx (colIdx + ?n)")
    case (Inl p)
    with Cons.prems have "res = Inl p" "w' = w" by auto
    then show ?thesis by (intro exI [of _ "[]"]) simp
  next
    case (Inr subSlice)
    let ?s = "createSamplerFromForeignkeyLinks
                (relationship (fklinks ins) (Name (table ins)) (ReferencedTableName c)) c subSlice"
    let ?res = "sampleResult e (trace w) ?s"
    let ?b1 = "applySample (fst ?res) subSlice b"
    let ?w1 = "emit [SampleCall ?s (snd ?res)] w"
    have sl: "subSliceOf ?s
        = map (\<lambda>v. \<lparr>s_row = s_row v, s_off = s_off v + (colIdx + offsetOf (c # cs) 0),
                       s_len = length (ReferencedFields ((c # cs) ! 0)),
                       s_cap = s_cap v - (colIdx + offsetOf (c # cs) 0)\<rparr>) vals"
      using subSlices_eq [OF Inr] by simp
    show ?thesis
    proof (cases "snd ?res")
      case (Some err)
      with Cons.prems Inr have r: "res = Inr (Some (errorsWrap err ''sampleFieldsTable''))"
          and w': "w' = ?w1"
        by (auto simp: Let_def)
      show ?thesis
      proof (intro exI [of _ "[(?s, Some err)]"] conjI allI impI)
        show "trace w' = trace w @ map callEvent [(?s, Some err)]"
          using w' Some by (simp add: callEvent_def)
        show "length [(?s, Some err)] \<le> length (c # cs)" by simp
        show "list_all succeededCall (butlast [(?s, Some err)])" by simp
        show "subSliceOf (fst ([(?s, Some err)] ! k))
            = map (\<lambda>v. \<lparr>s_row = s_row v, s_off = s_off v + (colIdx + offsetOf (c # cs) k),
                           s_len = length (ReferencedFields ((c # cs) ! k)),
                           s_cap = s_cap v - (colIdx + offsetOf (c # cs) k)\<rparr>) vals"
          if "k < length [(?s, Some err)]" for k
          using that sl by simp
        show "case res of
                Inl p \<Rightarrow> list_all succeededCall [(?s, Some err)]
              | Inr None \<Rightarrow> list_all succeededCall [(?s, Some err)]
                  \<and> length [(?s, Some err)] = length (c # cs)
              | Inr (Some werr) \<Rightarrow>
                  [(?s, Some err)] \<noteq> []
                  \<and> (\<exists>err'. snd (last [(?s, Some err)]) = Some err'
                        \<and> werr = errorsWrap err' ''sampleFieldsTable'')"
          using r by simp
      qed
    next
      case None
      with Cons.prems Inr have
        "sampleConstraints e ins vals cs (colIdx + ?n) ?b1 ?w1 = (res, b', w')"
        by (simp add: Let_def)
      from Cons.IH [OF this] obtain called where
        tr: "trace w' = trace ?w1 @ map callEvent called" and
        ln: "length called \<le> length cs" and
        bl: "list_all succeededCall (butlast called)" and
        sls: "\<forall>k < length called.
               subSliceOf (fst (called ! k))
                 = map (\<lambda>v. \<lparr>s_row = s_row v, s_off = s_off v + (colIdx + ?n + offsetOf cs k),
                                s_len = length (ReferencedFields (cs ! k)),
                                s_cap = s_cap v - (colIdx + ?n + offsetOf cs k)\<rparr>) vals" and
        rs: "(case res of
               Inl p \<Rightarrow> list_all succeededCall called
             | Inr None \<Rightarrow> list_all succeededCall called \<and> length called = length cs
             | Inr (Some werr) \<Rightarrow>
                 called \<noteq> []
                 \<and> (\<exists>err. snd (last called) = Some err
                       \<and> werr = errorsWrap err ''sampleFieldsTable''))"
        by blast
      have ok: "succeededCall (?s, None)" by (simp add: succeededCall_def)
      show ?thesis
      proof (intro exI [of _ "(?s, None) # called"] conjI allI impI)
        show "trace w' = trace w @ map callEvent ((?s, None) # called)"
          using tr None by (simp add: callEvent_def)
        show "length ((?s, None) # called) \<le> length (c # cs)" using ln by simp
        show "list_all succeededCall (butlast ((?s, None) # called))" using bl ok by simp
        show "subSliceOf (fst (((?s, None) # called) ! k))
            = map (\<lambda>v. \<lparr>s_row = s_row v, s_off = s_off v + (colIdx + offsetOf (c # cs) k),
                           s_len = length (ReferencedFields ((c # cs) ! k)),
                           s_cap = s_cap v - (colIdx + offsetOf (c # cs) k)\<rparr>) vals"
          if "k < length ((?s, None) # called)" for k
        proof (cases k)
          case 0
          with sl show ?thesis by simp
        next
          case (Suc k')
          with that have "k' < length called" by simp
          with sls Suc show ?thesis by (simp add: add.assoc)
        qed
        show "case res of
                Inl p \<Rightarrow> list_all succeededCall ((?s, None) # called)
              | Inr None \<Rightarrow> list_all succeededCall ((?s, None) # called)
                  \<and> length ((?s, None) # called) = length (c # cs)
              | Inr (Some werr) \<Rightarrow>
                  (?s, None) # called \<noteq> []
                  \<and> (\<exists>err. snd (last ((?s, None) # called)) = Some err
                        \<and> werr = errorsWrap err ''sampleFieldsTable'')"
          using rs ok by (auto split: sum.splits option.splits)
      qed
    qed
  qed
qed

lemma fieldValue_no_calls: "sampleCalls (snd (fieldValue y f)) = []"
  by (simp add: fieldValue_def Let_def)

lemma genCols_no_calls:
  "genCols y flds sl idxs st = Inr r \<Longrightarrow> sampleCalls (snd r) = sampleCalls (snd st)"
proof (induction idxs arbitrary: st)
  case Nil
  then show ?case by simp
next
  case (Cons i idxs)
  then show ?case
    by (auto simp: fieldValue_no_calls split: if_splits dest!: Cons.IH)
qed

lemma genRows_no_calls:
  "genRows y flds width rows st = Inr r \<Longrightarrow> sampleCalls (snd r) = sampleCalls (snd st)"
proof (induction rows arbitrary: st)
  case Nil
  then show ?case by simp
next
  case (Cons i rows)
  then show ?case
    by (auto simp: generateFieldsRow_def split: sum.splits dest!: Cons.IH genCols_no_calls)
qed

lemma samplePhase_calls:
  assumes "samplePhase e ins n b w = (res, w')"
  shows "\<exists>called. sampleCalls (trace w') = sampleCalls (trace w) @ called
     \<and> length called \<le> length (Constraints (table ins))
     \<and> list_all succeededCall (butlast called)
     \<and> (\<forall>k < length called.
           subSliceOf (fst (called ! k))
             = map (\<lambda>i. \<lparr>s_row = i,
                  s_off = length (FieldsToGenerate (table ins))
                          + offsetOf (Constraints (table ins)) k,
                  s_len = length (ReferencedFields (Constraints (table ins) ! k)),
                  s_cap = length (FieldsToSample (table ins))
                          - offsetOf (Constraints (table ins)) k\<rparr>) [0..<n])
     \<and> (\<not> list_all succeededCall called \<longrightarrow>
           (\<exists>vals err new. res = Inr vals \<and> snd (last called) = Some err
              \<and> trace w' = trace w @ new
              \<and> LogError ''error when sampling field''
                   [(''error'', errorsWrap err ''sampleFieldsTable'')] \<in> set new))"
proof -
  let ?g = "length (FieldsToGenerate (table ins))"
  let ?s = "length (FieldsToSample (table ins))"
  let ?cs = "Constraints (table ins)"
  obtain vs where sv: "sampledViews (?g + ?s) ?g [0..<n] = Inr vs"
    using sampledViews_total [of ?g "?g + ?s" "[0..<n]"] by auto
  from sampledViews_eq [OF sv] have vs:
    "vs = map (\<lambda>i. \<lparr>s_row = i, s_off = ?g, s_len = ?s, s_cap = ?s\<rparr>) [0..<n]" by simp
  obtain res1 b1 w1 where sc: "sampleConstraints e ins vs ?cs 0 b w = (res1, b1, w1)"
    by (cases "sampleConstraints e ins vs ?cs 0 b w")
  from sampleConstraints_calls [OF sc] obtain called where
    tr: "trace w1 = trace w @ map callEvent called" and
    ln: "length called \<le> length ?cs" and
    bl: "list_all succeededCall (butlast called)" and
    sls: "\<forall>k < length called.
            subSliceOf (fst (called ! k))
              = map (\<lambda>v. \<lparr>s_row = s_row v, s_off = s_off v + (0 + offsetOf ?cs k),
                             s_len = length (ReferencedFields (?cs ! k)),
                             s_cap = s_cap v - (0 + offsetOf ?cs k)\<rparr>) vs" and
    rs: "(case res1 of
            Inl p \<Rightarrow> list_all succeededCall called
          | Inr None \<Rightarrow> list_all succeededCall called \<and> length called = length ?cs
          | Inr (Some werr) \<Rightarrow>
              called \<noteq> []
              \<and> (\<exists>err. snd (last called) = Some err
                    \<and> werr = errorsWrap err ''sampleFieldsTable''))"
    by blast
  have calls1: "sampleCalls (trace w1) = sampleCalls (trace w) @ called"
    using tr by simp
  have geo: "\<forall>k < length called.
           subSliceOf (fst (called ! k))
             = map (\<lambda>i. \<lparr>s_row = i, s_off = ?g + offsetOf ?cs k,
                  s_len = length (ReferencedFields (?cs ! k)),
                  s_cap = ?s - offsetOf ?cs k\<rparr>) [0..<n]"
    using sls by (simp add: vs o_def)
  from assms sv sc have
    out: "(res, w') = (case (res1, b1, w1) of
             (Inl p, b1, w1) \<Rightarrow> (Inl p, w1)
           | (Inr None, b1, w1) \<Rightarrow> (Inr b1, w1)
           | (Inr (Some err), b1, w1) \<Rightarrow>
               (Inr b1, emit [LogError ''error when sampling field'' [(''error'', err)]] w1))"
    by (simp add: samplePhase_def sampleFieldsTable_def Let_def)
  have calls: "sampleCalls (trace w') = sampleCalls (trace w) @ called"
    using out calls1 by (auto split: sum.splits option.splits)
  have failed: "\<exists>vals err new. res = Inr vals \<and> snd (last called) = Some err
              \<and> trace w' = trace w @ new
              \<and> LogError ''error when sampling field''
                   [(''error'', errorsWrap err ''sampleFieldsTable'')] \<in> set new"
    if "\<not> list_all succeededCall called"
  proof -
    from that rs obtain err where
      r1: "res1 = Inr (Some (errorsWrap err ''sampleFieldsTable''))" and
      l: "snd (last called) = Some err"
      by (auto split: sum.splits option.splits)
    let ?log = "LogError ''error when sampling field''
                  [(''error'', errorsWrap err ''sampleFieldsTable'')]"
    from out r1 have "res = Inr b1" and "trace w' = trace w @ (map callEvent called @ [?log])"
      using tr by simp_all
    with l show ?thesis by (intro exI [of _ b1] exI [of _ err]
        exI [of _ "map callEvent called @ [?log]"]) simp
  qed
  from calls ln bl geo failed show ?thesis by blast
qed

lemma genRows_trace:
  assumes "(if length flds \<noteq> 0 then genRows y flds width rows (vals, []) else Inr (vals, []))
           = Inr r"
  shows "sampleCalls (snd r) = []"
  using assms by (auto split: if_splits dest!: genRows_no_calls)

lemma fillValues_calls:
  assumes "fillValues e ins count w = (res, w')"
  shows "\<exists>called. sampleCalls (trace w') = sampleCalls (trace w) @ called
     \<and> length called \<le> length (Constraints (table ins))
     \<and> list_all succeededCall (butlast called)
     \<and> (\<forall>k < length called.
           subSliceOf (fst (called ! k))
             = map (\<lambda>i. \<lparr>s_row = i,
                  s_off = length (FieldsToGenerate (table ins))
                          + offsetOf (Constraints (table ins)) k,
                  s_len = length (ReferencedFields (Constraints (table ins) ! k)),
                  s_cap = length (FieldsToSample (table ins))
                          - offsetOf (Constraints (table ins)) k\<rparr>) [0..<nat count])
     \<and> (\<not> list_all succeededCall called \<longrightarrow>
           (\<exists>vals err new. res = Inr vals \<and> snd (last called) = Some err
              \<and> trace w' = trace w @ new
              \<and> LogError ''error when sampling field''
                   [(''error'', errorsWrap err ''sampleFieldsTable'')] \<in> set new))"
proof -
  let ?g = "FieldsToGenerate (table ins)"
  let ?s = "FieldsToSample (table ins)"
  let ?width = "length ?g + length ?s"
  let ?vals = "replicate (nat count) (replicate ?width None)"
  let ?gen = "if length ?g \<noteq> 0
               then genRows (yearNow e) ?g ?width [0..<nat count] (?vals, [])
               else Inr (?vals, [])"
  show ?thesis
  proof (cases ?gen)
    case (Inl p)
    with assms have "w' = w" by (auto simp: fillValues_def Let_def)
    then show ?thesis by (intro exI [of _ "[]"]) simp
  next
    case (Inr r)
    from genRows_trace [OF Inr] have quiet: "sampleCalls (snd r) = []" .
    show ?thesis
    proof (cases "length ?s \<noteq> 0")
      case True
      with assms Inr have "samplePhase e ins (nat count) (fst r) (emit (snd r) w) = (res, w')"
        by (simp add: fillValues_def Let_def)
      from samplePhase_calls [OF this] obtain called where
        c1: "sampleCalls (trace w') = sampleCalls (trace (emit (snd r) w)) @ called" and
        c2: "length called \<le> length (Constraints (table ins))" and
        c3: "list_all succeededCall (butlast called)" and
        c4: "\<forall>k < length called.
           subSliceOf (fst (called ! k))
             = map (\<lambda>i. \<lparr>s_row = i,
                  s_off = length (FieldsToGenerate (table ins))
                          + offsetOf (Constraints (table ins)) k,
                  s_len = length (ReferencedFields (Constraints (table ins) ! k)),
                  s_cap = length (FieldsToSample (table ins))
                          - offsetOf (Constraints (table ins)) k\<rparr>) [0..<nat count]" and
        c5: "\<not> list_all succeededCall called \<longrightarrow>
           (\<exists>vals err new. res = Inr vals \<and> snd (last called) = Some err
              \<and> trace w' = trace (emit (snd r) w) @ new
              \<and> LogError ''error when sampling field''
                   [(''error'', errorsWrap err ''sampleFieldsTable'')] \<in> set new)"
        by blast
      have logged: "\<exists>vals err new. res = Inr vals \<and> snd (last called) = Some err
              \<and> trace w' = trace w @ new
              \<and> LogError ''error when sampling field''
                   [(''error'', errorsWrap err ''sampleFieldsTable'')] \<in> set new"
        if "\<not> list_all succeededCall called"
      proof -
        from c5 that obtain vals err new where
          "res = Inr vals" "snd (last called) = Some err"
          "trace w' = trace (emit (snd r) w) @ new"
          "LogError ''error when sampling field''
             [(''error'', errorsWrap err ''sampleFieldsTable'')] \<in> set new"
          by blast
        then show ?thesis
          by (intro exI [of _ vals] exI [of _ err] exI [of _ "snd r @ new"]) simp
      qed
      from c1 quiet have "sampleCalls (trace w') = sampleCalls (trace w) @ called" by simp
      with c2 c3 c4 logged show ?thesis by blast
    next
      case False
      with assms Inr have "w' = emit (snd r) w" by (auto simp: fillValues_def Let_def)
      with quiet show ?thesis by (intro exI [of _ "[]"]) simp
    qed
  qed
qed

text \<open>The generation phase never fails.\<close>

lemma prefixView_total:
  "g \<le> width \<Longrightarrow> prefixView width g i = Inr \<lparr>s_row = i, s_off = 0, s_len = g, s_cap = width\<rparr>"
  by (simp add: prefixView_def reslice_def rowSlice_def)

lemma genCols_total:
  "\<forall>x \<in> set idxs. x < length flds \<Longrightarrow> \<exists>r. genCols y flds sl idxs st = Inr r"
  by (induction idxs arbitrary: st) simp_all

lemma generateFieldsRow_total:
  "s_len sl \<le> length flds \<Longrightarrow> \<exists>r. generateFieldsRow y flds sl b = Inr r"
  unfolding generateFieldsRow_def by (rule genCols_total) simp

lemma genRows_total: "\<exists>r. genRows y flds (length flds + s) rows st = Inr r"
proof (induction rows arbitrary: st)
  case Nil
  then show ?case by simp
next
  case (Cons i rows)
  let ?sl = "\<lparr>s_row = i, s_off = 0, s_len = length flds, s_cap = length flds + s\<rparr>"
  have pv: "prefixView (length flds + s) (length flds) i = Inr ?sl"
    by (rule prefixView_total) simp
  obtain r1 where r1: "generateFieldsRow y flds ?sl (fst st) = Inr r1"
    using generateFieldsRow_total [of ?sl flds y "fst st"] by auto
  from Cons.IH [of "(fst r1, snd st @ snd r1)"] pv r1 show ?case by simp
qed

text \<open>
  The sampling phase can only fail by slicing past the sample-columns. It does not when
  the referenced fields of the constraints fit into them.
\<close>

lemma subSlices_total:
  "lo \<le> hi \<Longrightarrow> \<forall>v \<in> set vals. hi \<le> s_cap v \<Longrightarrow> \<exists>ss. subSlices vals lo hi = Inr ss"
  by (induction vals) (auto simp: reslice_def)

lemma offsetOf_Cons_all:
  "offsetOf (c # cs) (length (c # cs)) = length (ReferencedFields c) + offsetOf cs (length cs)"
  by simp

lemma sampleConstraints_total:
  "\<forall>v \<in> set vals. colIdx + offsetOf cs (length cs) \<le> s_cap v \<Longrightarrow>
     \<exists>r b' w'. sampleConstraints e ins vals cs colIdx b w = (Inr r, b', w')"
proof (induction cs arbitrary: colIdx b w)
  case Nil
  then show ?case by simp
next
  case (Cons c cs)
  let ?n = "length (ReferencedFields c)"
  from Cons.prems have cap: "\<forall>v \<in> set vals. colIdx + ?n \<le> s_cap v"
    and rest: "\<forall>v \<in> set vals. colIdx + ?n + offsetOf cs (length cs) \<le> s_cap v"
    by (auto simp: offsetOf_Cons_all)
  from subSlices_total [of colIdx "colIdx + ?n" vals] cap obtain subSlice where
    ss: "subSlices vals colIdx (colIdx + ?n) = Inr subSlice" by auto
  let ?s = "createSamplerFromForeignkeyLinks
              (relationship (fklinks ins) (Name (table ins)) (ReferencedTableName c)) c subSlice"
  let ?res = "sampleResult e (trace w) ?s"
  show ?case
  proof (cases "snd ?res")
    case (Some err)
    with ss show ?thesis by (simp add: Let_def)
  next
    case None
    from Cons.IH [OF rest, of "applySample (fst ?res) subSlice b"
        "emit [SampleCall ?s (snd ?res)] w"] None ss
    show ?thesis by (simp add: Let_def)
  qed
qed

lemma fillValues_total:
  assumes "offsetOf (Constraints (table ins)) (length (Constraints (table ins)))
             \<le> length (FieldsToSample (table ins))"
  shows "\<exists>vals w'. fillValues e ins count w = (Inr vals, w')"
proof -
  let ?g = "FieldsToGenerate (table ins)"
  let ?s = "FieldsToSample (table ins)"
  let ?n = "nat count"
  let ?vals = "replicate ?n (replicate (length ?g + length ?s) None)"
  have "\<exists>r. (if length ?g \<noteq> 0
              then genRows (yearNow e) ?g (length ?g + length ?s) [0..<?n] (?vals, [])
              else Inr (?vals, [])) = Inr r"
    using genRows_total [of "yearNow e" ?g "length ?s" "[0..<?n]" "(?vals, [])"] by auto
  then obtain r where gen: "(if length ?g \<noteq> 0
              then genRows (yearNow e) ?g (length ?g + length ?s) [0..<?n] (?vals, [])
              else Inr (?vals, [])) = Inr r" ..
  obtain vs where sv: "sampledViews (length ?g + length ?s) (length ?g) [0..<?n] = Inr vs"
    using sampledViews_total [of "length ?g" "length ?g + length ?s" "[0..<?n]"] by auto
  from sampledViews_eq [OF sv] assms have
    "\<forall>v \<in> set vs. 0 + offsetOf (Constraints (table ins)) (length (Constraints (table ins)))
        \<le> s_cap v"
    by auto
  from sampleConstraints_total [OF this, of e ins "fst r" "emit (snd r) w"] obtain res b' w1 where
    "sampleConstraints e ins vs (Constraints (table ins)) 0 (fst r) (emit (snd r) w)
       = (Inr res, b', w1)" by blast
  with sv have "\<exists>vals w'. samplePhase e ins ?n (fst r) (emit (snd r) w) = (Inr vals, w')"
    by (cases res) (simp_all add: samplePhase_def sampleFieldsTable_def Let_def)
  with gen show ?thesis by (auto simp: fillValues_def Let_def)
qed

section \<open>A failing sampler\<close>

lemma genQuery_fill:
  "1 \<le> count \<Longrightarrow> genQuery e ins count w = (res, w1) \<Longrightarrow>
     \<exists>fres. fillValues e ins count w = (fres, w1)
       \<and> (\<forall>vals. fres = Inr vals \<longrightarrow> (\<exists>q. res = Inr (Some q)))"
  by (cases "fillValues e ins count w") (auto simp: genQuery_def split: sum.splits)

lemma insert_chunk_statement:
  assumes "1 \<le> count" and "genQuery e ins count w = (Inr (Some q), w1)"
    and "insert_chunk e ins count dryRun w = (out, w')"
  shows "\<exists>r. stmts (trace w') = stmts (trace w) @ [(count, r)]
           \<and> out = Return (rows_of r) (case r of Inl x \<Rightarrow> Some x | Inr n \<Rightarrow> None)"
proof -
  from genQuery_effect [OF assms(2)] obtain new where
    "trace w1 = trace w @ new" "internal new" by blast
  then have quiet: "stmts (trace w1) = stmts (trace w)" by (simp add: internal_quiet)
  show ?thesis
  proof (cases dryRun)
    case True
    with insert_chunk_built(1) [OF assms(1,2)] assms(3) quiet show ?thesis
      by (cases "writeResult e (trace w1) (q @ newline)") auto
  next
    case False
    with insert_chunk_built(2) [OF assms(1,2)] assms(3) quiet show ?thesis
      by (cases "execResult e (trace w1) q") auto
  qed
qed

lemma failed_call_is_last:
  assumes "list_all succeededCall (butlast called)" and "(s, Some err) \<in> set called"
  shows "last called = (s, Some err)" and "\<not> list_all succeededCall called"
proof -
  from assms(2) obtain i where i: "i < length called" "called ! i = (s, Some err)"
    by (auto simp: in_set_conv_nth)
  then have ne: "called \<noteq> []" by auto
  have "\<not> i < length (butlast called)"
  proof
    assume lt: "i < length (butlast called)"
    then have "butlast called ! i = (s, Some err)" using i(2) by (simp add: nth_butlast)
    moreover have "succeededCall (butlast called ! i)"
      using assms(1) lt by (simp add: list_all_length)
    ultimately show False by (simp add: succeededCall_def)
  qed
  with i(1) have "i = length called - 1" by simp
  with i(2) ne show "last called = (s, Some err)" by (simp add: last_conv_nth)
  have "\<not> succeededCall (called ! i)" using i(2) by (simp add: succeededCall_def)
  with i(1) show "\<not> list_all succeededCall called" by (auto simp: list_all_length)
qed

text \<open>
  C2, as the code has it. For every chunk, if a sampler invoked during the chunk's
  sampling phase returns an error, no further sampler is invoked for the chunk and
  nothing is retried; \<open>sampleFieldsTable\<close> hands the error, wrapped with its name, to
  \<open>genQuery\<close>, which logs it: the entry is among those the chunk adds to the log. The
  statement of the chunk is built and issued all the same, and what \<open>insert\<close> returns is
  the outcome of that statement alone; an error that \<open>run\<close> returns is always the error
  of a statement. So the sampling error does not reach the caller of the run and does
  not halt it.
\<close>

theorem sampling_error_is_logged:
  assumes "1 \<le> count" and "genQuery e ins count w = (res, w1)"
    and "sampleCalls (trace w1) = sampleCalls (trace w) @ called"
    and "(s, Some err) \<in> set called"
    and "insert_chunk e ins count dryRun w = (out, w')"
  shows "last called = (s, Some err)
         \<and> (\<exists>new. trace w1 = trace w @ new
               \<and> LogError ''error when sampling field''
                     [(''error'', ''sampleFieldsTable: '' @ err)] \<in> set new)
         \<and> (\<exists>q. res = Inr (Some q))
         \<and> (\<exists>r. stmts (trace w') = stmts (trace w) @ [(count, r)]
               \<and> out = Return (rows_of r) (case r of Inl x \<Rightarrow> Some x | Inr n \<Rightarrow> None))
         \<and> (\<forall>totalCount bulksize d w0 n x w2.
               is_int64 totalCount \<and> 1 \<le> bulksize
               \<and> run e ins totalCount bulksize d w0 = (Return n (Some x), w2) \<longrightarrow>
                 (\<exists>c. (c, Inl x) \<in> set (stmts (trace w2))))"
proof -
  have returned: "\<exists>c. (c, Inl x) \<in> set (stmts (trace w2))"
    if "is_int64 totalCount \<and> 1 \<le> bulksize
        \<and> run e ins totalCount bulksize d w0 = (Return n (Some x), w2)"
    for totalCount bulksize d w0 n x w2
  proof -
    from that have i: "is_int64 totalCount" and b: "1 \<le> bulksize"
      and r: "run e ins totalCount bulksize d w0 = (Return n (Some x), w2)" by simp_all
    from run_effect [OF i b r] obtain ss where
      st: "stmts (trace w2) = stmts (trace w0) @ ss" and ne: "ss \<noteq> []"
      and l: "snd (last ss) = Inl x"
      by auto
    from ne have "last ss \<in> set ss" by simp
    with l have "(fst (last ss), Inl x) \<in> set ss" by (metis prod.collapse)
    with st show ?thesis by auto
  qed
  from genQuery_fill [OF assms(1,2)] obtain fres where
    fv: "fillValues e ins count w = (fres, w1)" and
    built: "\<forall>vals. fres = Inr vals \<longrightarrow> (\<exists>q. res = Inr (Some q))"
    by blast
  from fillValues_calls [OF fv] obtain called' where
    c': "sampleCalls (trace w1) = sampleCalls (trace w) @ called'" and
    bl: "list_all succeededCall (butlast called')" and
    fl: "\<not> list_all succeededCall called' \<longrightarrow>
           (\<exists>vals err new. fres = Inr vals \<and> snd (last called') = Some err
              \<and> trace w1 = trace w @ new
              \<and> LogError ''error when sampling field''
                   [(''error'', errorsWrap err ''sampleFieldsTable'')] \<in> set new)"
    by blast
  from c' assms(3) have same: "called' = called" by simp
  from failed_call_is_last [OF bl [unfolded same] assms(4)] have
    lst: "last called = (s, Some err)" and nok: "\<not> list_all succeededCall called"
    by simp_all
  from fl nok lst same obtain vals new where
    fres: "fres = Inr vals" and
    tr: "trace w1 = trace w @ new" and
    lg: "LogError ''error when sampling field''
           [(''error'', errorsWrap err ''sampleFieldsTable'')] \<in> set new"
    by auto
  from tr lg have logged: "\<exists>new. trace w1 = trace w @ new
               \<and> LogError ''error when sampling field''
                     [(''error'', ''sampleFieldsTable: '' @ err)] \<in> set new"
    by (auto simp: errorsWrap_def)
  from built fres obtain q where q: "res = Inr (Some q)" by blast
  from insert_chunk_statement [OF assms(1) assms(2) [unfolded q] assms(5)]
  have "\<exists>r. stmts (trace w') = stmts (trace w) @ [(count, r)]
           \<and> out = Return (rows_of r) (case r of Inl x \<Rightarrow> Some x | Inr n \<Rightarrow> None)" .
  with lst logged q returned show ?thesis by blast
qed

theorem sampling_error_is_logged_witness:
  "(1::int) \<le> 1
   \<and> map snd (sampleCalls (trace (snd (genQuery (exampleEnv None True) exampleInsert 1 emptyWorld))))
       = [Some ''connection lost'']
   \<and> LogError ''error when sampling field'' [(''error'', ''sampleFieldsTable: connection lost'')]
       \<in> set (trace (snd (genQuery (exampleEnv None True) exampleInsert 1 emptyWorld)))
   \<and> (\<exists>q. fst (genQuery (exampleEnv None True) exampleInsert 1 emptyWorld) = Inr (Some q))
   \<and> fst (insert_chunk (exampleEnv None True) exampleInsert 1 True emptyWorld) = Return 1 None"
proof -
  let ?g = "genQuery (exampleEnv None True) exampleInsert 1 emptyWorld"
  let ?i = "insert_chunk (exampleEnv None True) exampleInsert 1 True emptyWorld"
  let ?s = "DBRandomSample [exampleField ''id'' ''int''] ''public'' ''customers''
              [\<lparr>s_row = 0, s_off = 2, s_len = 1, s_cap = 1\<rparr>]"
  have c: "(1::int) \<le> 1" by simp
  have pg: "?g = (fst ?g, snd ?g)" and pi: "?i = (fst ?i, snd ?i)" by simp_all
  have calls: "sampleCalls (trace (snd ?g))
      = sampleCalls (trace emptyWorld) @ [(?s, Some ''connection lost'')]"
    by code_simp
  have mem: "(?s, Some ''connection lost'') \<in> set [(?s, Some ''connection lost'')]" by simp
  have m: "map snd (sampleCalls (trace (snd ?g))) = [Some ''connection lost'']"
    by code_simp
  have out: "fst ?i = Return 1 None" by code_simp
  note t = sampling_error_is_logged [OF c pg calls mem pi]
  from t [THEN conjunct2, THEN conjunct1]
  have lg: "LogError ''error when sampling field''
              [(''error'', ''sampleFieldsTable: connection lost'')] \<in> set (trace (snd ?g))"
    by auto
  from t [THEN conjunct2, THEN conjunct2, THEN conjunct1]
  have q: "\<exists>q. fst ?g = Inr (Some q)" .
  from c m lg q out show ?thesis by blast
qed

text \<open>
  C2 as stated fails: with a sampler that fails for every chunk, a dry run of two rows
  in statements of one row issues both statements and returns without error.
\<close>

theorem sampling_error_does_not_halt_run:
  "fst (run (exampleEnv None True) exampleInsert 2 1 True emptyWorld) = Return 2 None
   \<and> map snd (sampleCalls (trace (snd (run (exampleEnv None True) exampleInsert 2 1 True
        emptyWorld))))
       = [Some ''connection lost'', Some ''connection lost'']
   \<and> stmts (trace (snd (run (exampleEnv None True) exampleInsert 2 1 True emptyWorld)))
       = [(1, Inr 1), (1, Inr 1)]"
  by code_simp

section \<open>Who writes which cell\<close>

lemma poke_other:
  "s_row sl \<noteq> i \<or> s_off sl + k \<noteq> j \<Longrightarrow> poke sl k v b ! i ! j = b ! i ! j"
proof (cases "s_row sl = i")
  case False
  then show ?thesis by (simp add: poke_def)
next
  case True
  assume "s_row sl \<noteq> i \<or> s_off sl + k \<noteq> j"
  with True have col: "s_off sl + k \<noteq> j" by simp
  show ?thesis
  proof (cases "i < length b")
    case True
    with \<open>s_row sl = i\<close> col show ?thesis by (simp add: poke_def)
  next
    case False
    with \<open>s_row sl = i\<close> show ?thesis by (simp add: poke_def list_update_beyond)
  qed
qed

lemma genCols_frame:
  "genCols y flds sl idxs st = Inr r \<Longrightarrow>
   \<forall>x \<in> set idxs. s_row sl \<noteq> i \<or> s_off sl + x \<noteq> j \<Longrightarrow>
     fst r ! i ! j = fst st ! i ! j"
proof (induction idxs arbitrary: st)
  case Nil
  then show ?case by simp
next
  case (Cons x idxs)
  from Cons.prems(1) have lt: "x < length flds" by (simp split: if_splits)
  let ?st = "(poke sl x (fst (fieldValue y (flds ! x))) (fst st),
              snd st @ snd (fieldValue y (flds ! x)))"
  from Cons.prems(1) lt have "genCols y flds sl idxs ?st = Inr r" by simp
  from Cons.IH [OF this] Cons.prems(2) have "fst r ! i ! j = fst ?st ! i ! j" by simp
  also have "\<dots> = fst st ! i ! j" using Cons.prems(2) by (simp add: poke_other)
  finally show ?case .
qed

lemma prefixView_eq:
  "prefixView width g i = Inr sl \<Longrightarrow> sl = \<lparr>s_row = i, s_off = 0, s_len = g, s_cap = width\<rparr>"
  by (auto simp: prefixView_def reslice_def rowSlice_def split: if_splits)

lemma genRows_frame:
  "genRows y flds width rows st = Inr r \<Longrightarrow> length flds \<le> j \<Longrightarrow>
     fst r ! i ! j = fst st ! i ! j"
proof (induction rows arbitrary: st)
  case Nil
  then show ?case by simp
next
  case (Cons x rows)
  from Cons.prems(1) obtain sl r1 where
    pv: "prefixView width (length flds) x = Inr sl" and
    gr: "generateFieldsRow y flds sl (fst st) = Inr r1" and
    rest: "genRows y flds width rows (fst r1, snd st @ snd r1) = Inr r"
    by (auto split: sum.splits)
  from prefixView_eq [OF pv] have sl: "s_off sl = 0" "s_len sl = length flds" by simp_all
  from gr have "genCols y flds sl [0..<s_len sl] (fst st, []) = Inr r1"
    by (simp add: generateFieldsRow_def)
  from genCols_frame [OF this, of i j] sl Cons.prems(2)
  have "fst r1 ! i ! j = fst st ! i ! j" by simp
  with Cons.IH [OF rest Cons.prems(2)] show ?case by simp
qed

lemma footprint_range:
  "footprint \<lparr>s_row = i, s_off = lo, s_len = n, s_cap = c\<rparr> = map (\<lambda>j. (i, j)) [lo..<lo + n]"
proof -
  have "[lo..<lo + n] = map (\<lambda>j. j + lo) [0..<n]"
    by (simp add: map_add_upt add.commute)
  then show ?thesis by (simp add: footprint_def o_def add.commute)
qed

lemma in_footprint: "(r, c) \<in> set (footprint sl) \<longleftrightarrow> r = s_row sl \<and> s_off sl \<le> c \<and> c < s_off sl + s_len sl"
proof -
  have "(\<exists>j < s_len sl. c = s_off sl + j) \<longleftrightarrow> s_off sl \<le> c \<and> c < s_off sl + s_len sl"
    by (metis add_diff_inverse_nat add_less_cancel_left le_add1 not_less)
  then show ?thesis by (auto simp: footprint_def)
qed

lemma fold_poke_frame:
  "(r, c) \<notin> set (footprint sl) \<Longrightarrow> set js \<subseteq> {0..<s_len sl} \<Longrightarrow>
     fold (\<lambda>j b'. case f j of Keep \<Rightarrow> b' | Put v \<Rightarrow> poke sl j v b') js b ! r ! c = b ! r ! c"
proof (induction js arbitrary: b)
  case Nil
  then show ?case by simp
next
  case (Cons j js)
  from Cons.prems have j: "j < s_len sl" by simp
  with Cons.prems(1) have other: "s_row sl \<noteq> r \<or> s_off sl + j \<noteq> c"
    by (auto simp: in_footprint)
  from Cons.prems have rest: "set js \<subseteq> {0..<s_len sl}" by simp
  show ?case
  proof (cases "f j")
    case Keep
    with Cons.IH [OF Cons.prems(1) rest] show ?thesis by simp
  next
    case (Put v)
    with Cons.IH [OF Cons.prems(1) rest, of "poke sl j v b"] other show ?thesis
      by (simp add: poke_other)
  qed
qed

lemma applySample_frame:
  assumes "(r, c) \<notin> cellsOf ss"
  shows "applySample f ss b ! r ! c = b ! r ! c"
proof -
  have "set rows \<subseteq> {0..<length ss} \<Longrightarrow>
      fold (\<lambda>i. fold (\<lambda>j b'. case f i j of Keep \<Rightarrow> b' | Put v \<Rightarrow> poke (ss ! i) j v b')
              [0..<s_len (ss ! i)]) rows b ! r ! c = b ! r ! c" for rows
  proof (induction rows arbitrary: b)
    case Nil
    then show ?case by simp
  next
    case (Cons i rows)
    then have "ss ! i \<in> set ss" by simp
    with assms have "(r, c) \<notin> set (footprint (ss ! i))" by (auto simp: cellsOf_def)
    then have "fold (\<lambda>j b'. case f i j of Keep \<Rightarrow> b' | Put v \<Rightarrow> poke (ss ! i) j v b')
        [0..<s_len (ss ! i)] b ! r ! c = b ! r ! c"
      by (rule fold_poke_frame) simp
    with Cons show ?case by simp
  qed
  then show ?thesis by (simp add: applySample_def)
qed

lemma offsetOf_Suc:
  "k < length cs \<Longrightarrow> offsetOf cs (Suc k) = offsetOf cs k + length (ReferencedFields (cs ! k))"
  by (simp add: offsetOf_def take_Suc_conv_app_nth)

lemma offsetOf_mono: "k \<le> k' \<Longrightarrow> offsetOf cs k \<le> offsetOf cs k'"
proof -
  assume le: "k \<le> k'"
  have "take k' cs = take k (take k' cs) @ drop k (take k' cs)"
    by (rule append_take_drop_id [symmetric])
  moreover have "take k (take k' cs) = take k cs" using le by (simp add: min_def)
  ultimately have "take k' cs = take k cs @ drop k (take k' cs)" by (simp only:)
  then have "offsetOf cs k' = offsetOf cs k
      + sum_list (map (\<lambda>c. length (ReferencedFields c)) (drop k (take k' cs)))"
    unfolding offsetOf_def by (metis map_append sum_list.append)
  then show ?thesis by simp
qed

lemma cellsOf_range:
  "cellsOf (map (\<lambda>i. \<lparr>s_row = i, s_off = lo, s_len = n, s_cap = c\<rparr>) [0..<m])
     = {(i, j). i < m \<and> lo \<le> j \<and> j < lo + n}"
  by (auto simp: cellsOf_def in_footprint)

text \<open>
  Stores into different cells commute: the buffer does not depend on the order in which
  the stores of the two goroutines are interleaved.
\<close>

lemma poke_commute:
  assumes "s_row a \<noteq> s_row b \<or> s_off a + j \<noteq> s_off b + k"
  shows "poke a j v (poke b k u buf) = poke b k u (poke a j v buf)"
proof (cases "s_row a = s_row b")
  case True
  with assms have col: "s_off a + j \<noteq> s_off b + k" by simp
  show ?thesis
  proof (cases "s_row b < length buf")
    case True
    with \<open>s_row a = s_row b\<close> col show ?thesis
      by (simp add: poke_def list_update_swap)
  next
    case False
    with \<open>s_row a = s_row b\<close> show ?thesis
      by (simp add: poke_def list_update_beyond)
  qed
next
  case False
  then show ?thesis
    by (simp add: poke_def list_update_swap)
qed

text \<open>
  C9. For every chunk the two phases write disjoint parts of the row buffer. The
  generation phase is handed the slice of columns [0, g) of each row, g the number of
  generate-columns, and leaves every other cell as it was. In the sampling phase the
  sampler of constraint k is handed, for each row, the slice of the columns from
  \<open>rangeStart k\<close> up to \<open>rangeStart (k + 1)\<close>: the ranges follow one another from
  column g on, each as long as the constraint has referenced fields; a sampler changes no
  cell outside its slices. So the slices of two samplers share no cell, and none of them
  has a cell among the columns of the generation phase.
\<close>

theorem phases_write_disjoint_ranges:
  assumes "fillValues e ins count w = (res, w')"
    and "sampleCalls (trace w') = sampleCalls (trace w) @ called"
  shows "(\<forall>i < nat count. \<exists>sl.
            prefixView (length (FieldsToGenerate (table ins)) + length (FieldsToSample (table ins)))
              (length (FieldsToGenerate (table ins))) i = Inr sl
            \<and> footprint sl = map (\<lambda>j. (i, j)) [0..<length (FieldsToGenerate (table ins))])
       \<and> (\<forall>width rows b r i j.
            genRows (yearNow e) (FieldsToGenerate (table ins)) width rows (b, []) = Inr r
            \<and> length (FieldsToGenerate (table ins)) \<le> j \<longrightarrow> fst r ! i ! j = b ! i ! j)
       \<and> (\<forall>k < length called.
            map footprint (subSliceOf (fst (called ! k)))
              = map (\<lambda>i. map (\<lambda>j. (i, j))
                       [rangeStart (table ins) k..<rangeStart (table ins) (Suc k)])
                  [0..<nat count])
       \<and> rangeStart (table ins) 0 = length (FieldsToGenerate (table ins))
       \<and> (\<forall>k < length (Constraints (table ins)).
            rangeStart (table ins) (Suc k)
              = rangeStart (table ins) k
                + length (ReferencedFields (Constraints (table ins) ! k)))
       \<and> (\<forall>f ss b r c. (r, c) \<notin> cellsOf ss \<longrightarrow> applySample f ss b ! r ! c = b ! r ! c)
       \<and> (\<forall>k < length called. \<forall>k' < length called. k \<noteq> k' \<longrightarrow>
            cellsOf (subSliceOf (fst (called ! k))) \<inter> cellsOf (subSliceOf (fst (called ! k')))
              = {})
       \<and> (\<forall>k < length called. \<forall>c \<in> cellsOf (subSliceOf (fst (called ! k))).
            length (FieldsToGenerate (table ins)) \<le> snd c)"
proof -
  let ?t = "table ins"
  let ?g = "length (FieldsToGenerate ?t)"
  let ?s = "length (FieldsToSample ?t)"
  let ?cs = "Constraints ?t"
  from fillValues_calls [OF assms(1)] obtain called' where
    c': "sampleCalls (trace w') = sampleCalls (trace w) @ called'" and
    ln': "length called' \<le> length ?cs" and
    geo': "\<forall>k < length called'.
           subSliceOf (fst (called' ! k))
             = map (\<lambda>i. \<lparr>s_row = i, s_off = ?g + offsetOf ?cs k,
                  s_len = length (ReferencedFields (?cs ! k)),
                  s_cap = ?s - offsetOf ?cs k\<rparr>) [0..<nat count]"
    by blast
  from c' assms(2) have same: "called' = called" by simp
  note ln = ln' [unfolded same] and geo = geo' [unfolded same]
  have next_start: "rangeStart ?t (Suc k) = rangeStart ?t k + length (ReferencedFields (?cs ! k))"
    if "k < length ?cs" for k
    using that by (simp add: rangeStart_def offsetOf_Suc)
  have sl: "subSliceOf (fst (called ! k))
      = map (\<lambda>i. \<lparr>s_row = i, s_off = rangeStart ?t k,
                    s_len = length (ReferencedFields (?cs ! k)),
                    s_cap = ?s - offsetOf ?cs k\<rparr>) [0..<nat count]"
    if "k < length called" for k
    using geo that by (simp add: rangeStart_def)
  have cells: "cellsOf (subSliceOf (fst (called ! k)))
      = {(i, j). i < nat count \<and> rangeStart ?t k \<le> j \<and> j < rangeStart ?t (Suc k)}"
    if "k < length called" for k
  proof -
    from that ln have "k < length ?cs" by simp
    from next_start [OF this] show ?thesis
      unfolding sl [OF that] cellsOf_range by simp
  qed
  have mono: "rangeStart ?t (Suc k) \<le> rangeStart ?t k'" if "k < k'" for k k'
    using that offsetOf_mono [of "Suc k" k' ?cs] by (simp add: rangeStart_def)
  have gen: "\<exists>sl. prefixView (?g + ?s) ?g i = Inr sl
            \<and> footprint sl = map (\<lambda>j. (i, j)) [0..<?g]" for i
    using prefixView_total [of ?g "?g + ?s" i] footprint_range [of i 0 ?g "?g + ?s"] by simp
  have frame_gen: "fst r ! i ! j = b ! i ! j"
    if "genRows (yearNow e) (FieldsToGenerate ?t) width rows (b, []) = Inr r \<and> ?g \<le> j"
    for width rows b r i j
    using genRows_frame [of "yearNow e" "FieldsToGenerate ?t" width rows "(b, [])" r j i] that
    by simp
  have ranges: "map footprint (subSliceOf (fst (called ! k)))
      = map (\<lambda>i. map (\<lambda>j. (i, j)) [rangeStart ?t k..<rangeStart ?t (Suc k)]) [0..<nat count]"
    if "k < length called" for k
  proof -
    from that ln have "k < length ?cs" by simp
    from next_start [OF this] show ?thesis
      unfolding sl [OF that] by (simp add: footprint_range o_def)
  qed
  have disj: "cellsOf (subSliceOf (fst (called ! k))) \<inter> cellsOf (subSliceOf (fst (called ! k')))
      = {}" if "k < length called" "k' < length called" "k \<noteq> k'" for k k'
  proof (cases "k < k'")
    case True
    from mono [OF True] show ?thesis
      unfolding cells [OF that(1)] cells [OF that(2)] by auto
  next
    case False
    with that(3) have "k' < k" by simp
    from mono [OF this] show ?thesis
      unfolding cells [OF that(1)] cells [OF that(2)] by auto
  qed
  have above: "?g \<le> snd c" if "k < length called" "c \<in> cellsOf (subSliceOf (fst (called ! k)))"
    for k c
    using that(2) unfolding cells [OF that(1)] by (auto simp: rangeStart_def)
  have start0: "rangeStart ?t 0 = ?g" by (simp add: rangeStart_def)
  show ?thesis
    using gen frame_gen ranges start0 next_start applySample_frame disj above
    by (intro conjI allI impI ballI) blast+
qed

theorem phases_write_disjoint_ranges_witness:
  "sampleCalls (trace (snd (fillValues (exampleEnv None False) exampleInsert2 2 emptyWorld)))
     = sampleCalls (trace emptyWorld)
       @ [(DBRandomSample [exampleField ''id'' ''int''] ''shop'' ''orders''
             [\<lparr>s_row = 0, s_off = 1, s_len = 1, s_cap = 3\<rparr>,
              \<lparr>s_row = 1, s_off = 1, s_len = 1, s_cap = 3\<rparr>], None),
          (DBRandomSample [exampleField ''id'' ''int'', exampleField ''sku'' ''char'']
             ''shop'' ''products''
             [\<lparr>s_row = 0, s_off = 2, s_len = 2, s_cap = 2\<rparr>,
              \<lparr>s_row = 1, s_off = 2, s_len = 2, s_cap = 2\<rparr>], None)]
   \<and> cellsOf [\<lparr>s_row = 0, s_off = 1, s_len = 1, s_cap = 3\<rparr>,
               \<lparr>s_row = 1, s_off = 1, s_len = 1, s_cap = 3\<rparr>]
       \<inter> cellsOf [\<lparr>s_row = 0, s_off = 2, s_len = 2, s_cap = 2\<rparr>,
                   \<lparr>s_row = 1, s_off = 2, s_len = 2, s_cap = 2\<rparr>] = {}
   \<and> \<not> (\<exists>c \<in> cellsOf [\<lparr>s_row = 0, s_off = 2, s_len = 2, s_cap = 2\<rparr>,
                          \<lparr>s_row = 1, s_off = 2, s_len = 2, s_cap = 2\<rparr>]. snd c < 1)
   \<and> cellsOf [\<lparr>s_row = 0, s_off = 2, s_len = 2, s_cap = 2\<rparr>,
               \<lparr>s_row = 1, s_off = 2, s_len = 2, s_cap = 2\<rparr>]
       = {(0, 2), (0, 3), (1, 2), (1, 3)}"
proof -
  let ?f = "fillValues (exampleEnv None False) exampleInsert2 2 emptyWorld"
  let ?a = "[\<lparr>s_row = 0, s_off = 1, s_len = 1, s_cap = 3\<rparr>,
             \<lparr>s_row = 1, s_off = 1, s_len = 1, s_cap = 3\<rparr>]"
  let ?b = "[\<lparr>s_row = 0, s_off = 2, s_len = 2, s_cap = 2\<rparr>,
             \<lparr>s_row = 1, s_off = 2, s_len = 2, s_cap = 2\<rparr>]"
  let ?called = "[(DBRandomSample [exampleField ''id'' ''int''] ''shop'' ''orders'' ?a, None),
          (DBRandomSample [exampleField ''id'' ''int'', exampleField ''sku'' ''char'']
             ''shop'' ''products'' ?b, None)]"
  have pf: "?f = (fst ?f, snd ?f)" by simp
  have calls: "sampleCalls (trace (snd ?f)) = sampleCalls (trace emptyWorld) @ ?called"
    by code_simp
  have g: "length (FieldsToGenerate (table exampleInsert2)) = 1"
    by (simp add: exampleInsert2_def New_def exampleTable2_def)
  note t = phases_write_disjoint_ranges [OF pf calls]
  note t_disj = t [THEN conjunct2, THEN conjunct2, THEN conjunct2, THEN conjunct2,
      THEN conjunct2, THEN conjunct2, THEN conjunct1, rule_format]
  note t_above = t [THEN conjunct2, THEN conjunct2, THEN conjunct2, THEN conjunct2,
      THEN conjunct2, THEN conjunct2, THEN conjunct2, rule_format]
  from t_disj [of 0 1] have disj: "cellsOf ?a \<inter> cellsOf ?b = {}" by simp
  have above: "\<not> (\<exists>c \<in> cellsOf ?b. snd c < 1)"
  proof
    assume "\<exists>c \<in> cellsOf ?b. snd c < 1"
    then obtain c where "c \<in> cellsOf ?b" "snd c < 1" by blast
    with t_above [of 1 c] show False unfolding g by simp
  qed
  have cells: "cellsOf ?b = {(0, 2), (0, 3), (1, 2), (1, 3)}"
    by (simp add: cellsOf_def footprint_def upt_rec numeral_2_eq_2) auto
  from calls disj above cells show ?thesis by blast
qed

section \<open>Columns of an unsupported type\<close>

lemma fieldValue_unsupported:
  "DataType f \<notin> set recognizedTypes \<Longrightarrow>
     fieldValue y f
       = (None, [LogError ''unsupported datatypes when generating fields''
                   [(''type'', DataType f), (''field'', ColumnName f)]])"
  by (simp add: fieldValue_def recognizedTypes_def Let_def)

lemma poke_same:
  "s_row sl < length b \<Longrightarrow> s_off sl + k < length (b ! s_row sl) \<Longrightarrow>
     poke sl k v b ! s_row sl ! (s_off sl + k) = v"
  by (simp add: poke_def)

lemma shape_nth:
  "map length b' = map length b \<Longrightarrow> length b' = length b \<and> (i < length b \<longrightarrow> length (b' ! i) = length (b ! i))"
  by (metis length_map nth_map)

lemma genCols_content:
  "genCols y flds sl idxs st = Inr r \<Longrightarrow> distinct idxs \<Longrightarrow> x \<in> set idxs \<Longrightarrow>
   s_row sl < length (fst st) \<Longrightarrow> s_off sl + x < length (fst st ! s_row sl) \<Longrightarrow>
     fst r ! s_row sl ! (s_off sl + x) = fst (fieldValue y (flds ! x))"
proof (induction idxs arbitrary: st)
  case Nil
  then show ?case by simp
next
  case (Cons i idxs)
  from Cons.prems(1) have lt: "i < length flds" by (simp split: if_splits)
  let ?b = "poke sl i (fst (fieldValue y (flds ! i))) (fst st)"
  let ?st = "(?b, snd st @ snd (fieldValue y (flds ! i)))"
  from Cons.prems(1) lt have rest: "genCols y flds sl idxs ?st = Inr r" by simp
  have "map length ?b = map length (fst st)" by (rule shape_poke)
  from shape_nth [OF this, of "s_row sl"] Cons.prems(4)
  have shape: "s_row sl < length ?b" "length (?b ! s_row sl) = length (fst st ! s_row sl)"
    by simp_all
  show ?case
  proof (cases "x = i")
    case True
    with Cons.prems(2) have "\<forall>x' \<in> set idxs. s_row sl \<noteq> s_row sl \<or> s_off sl + x' \<noteq> s_off sl + x"
      by auto
    from genCols_frame [OF rest this]
    have "fst r ! s_row sl ! (s_off sl + x) = ?b ! s_row sl ! (s_off sl + x)" by simp
    also have "\<dots> = fst (fieldValue y (flds ! x))"
      using True Cons.prems(4,5) by (simp add: poke_same)
    finally show ?thesis .
  next
    case False
    with Cons.prems(3) have "x \<in> set idxs" by simp
    moreover from Cons.prems(2) have "distinct idxs" by simp
    ultimately show ?thesis
      using Cons.IH [OF rest] shape Cons.prems(5) by simp
  qed
qed

lemma generateFieldsRow_row:
  assumes "i < length b" and "length flds \<le> length (b ! i)"
  shows "\<exists>r. generateFieldsRow y flds
                \<lparr>s_row = i, s_off = 0, s_len = length flds, s_cap = width\<rparr> b = Inr r
           \<and> (\<forall>j < length flds. fst r ! i ! j = fst (fieldValue y (flds ! j)))"
proof -
  let ?sl = "\<lparr>s_row = i, s_off = 0, s_len = length flds, s_cap = width\<rparr>"
  from genCols_total [of "[0..<length flds]" flds y ?sl "(b, [])"]
  obtain r where r: "genCols y flds ?sl [0..<length flds] (b, []) = Inr r" by auto
  have "fst r ! i ! j = fst (fieldValue y (flds ! j))" if "j < length flds" for j
    using genCols_content [OF r, of j] that assms by simp
  with r show ?thesis by (simp add: generateFieldsRow_def)
qed

lemma genRows_other_rows:
  "genRows y flds width rows st = Inr r \<Longrightarrow> i \<notin> set rows \<Longrightarrow>
     fst r ! i ! j = fst st ! i ! j"
proof (induction rows arbitrary: st)
  case Nil
  then show ?case by simp
next
  case (Cons x rows)
  from Cons.prems(1) obtain sl r1 where
    pv: "prefixView width (length flds) x = Inr sl" and
    gr: "generateFieldsRow y flds sl (fst st) = Inr r1" and
    rest: "genRows y flds width rows (fst r1, snd st @ snd r1) = Inr r"
    by (auto split: sum.splits)
  from prefixView_eq [OF pv] Cons.prems(2) have row: "s_row sl \<noteq> i" by simp
  from gr have "genCols y flds sl [0..<s_len sl] (fst st, []) = Inr r1"
    by (simp add: generateFieldsRow_def)
  from genCols_frame [OF this, of i j] row
  have "fst r1 ! i ! j = fst st ! i ! j" by simp
  moreover from Cons.prems(2) have "i \<notin> set rows" by simp
  from Cons.IH [OF rest this] have "fst r ! i ! j = fst r1 ! i ! j" by simp
  ultimately show ?case by simp
qed

lemma genRows_content:
  "genRows y flds width rows st = Inr r \<Longrightarrow> distinct rows \<Longrightarrow> i \<in> set rows \<Longrightarrow>
   i < length (fst st) \<Longrightarrow> length flds \<le> length (fst st ! i) \<Longrightarrow> j < length flds \<Longrightarrow>
     fst r ! i ! j = fst (fieldValue y (flds ! j))"
proof (induction rows arbitrary: st)
  case Nil
  then show ?case by simp
next
  case (Cons x rows)
  from Cons.prems(1) obtain sl r1 where
    pv: "prefixView width (length flds) x = Inr sl" and
    gr: "generateFieldsRow y flds sl (fst st) = Inr r1" and
    rest: "genRows y flds width rows (fst r1, snd st @ snd r1) = Inr r"
    by (auto split: sum.splits)
  from prefixView_eq [OF pv] have sl: "s_row sl = x" "s_off sl = 0" "s_len sl = length flds"
    by simp_all
  from gr have gc: "genCols y flds sl [0..<s_len sl] (fst st, []) = Inr r1"
    by (simp add: generateFieldsRow_def)
  from generateFieldsRow_shape [OF gr] have "map length (fst r1) = map length (fst st)" by simp
  from shape_nth [OF this, of i] Cons.prems(4)
  have shape: "i < length (fst r1)" "length (fst r1 ! i) = length (fst st ! i)" by simp_all
  show ?case
  proof (cases "i = x")
    case True
    with Cons.prems(2) have "i \<notin> set rows" by simp
    from genRows_other_rows [OF rest this]
    have "fst r ! i ! j = fst r1 ! i ! j" by simp
    also have "\<dots> = fst (fieldValue y (flds ! j))"
      using genCols_content [OF gc, of j] sl True Cons.prems(4,5,6) by simp
    finally show ?thesis .
  next
    case False
    with Cons.prems(3) have "i \<in> set rows" by simp
    moreover from Cons.prems(2) have "distinct rows" by simp
    ultimately show ?thesis
      using Cons.IH [OF rest] shape Cons.prems(5,6) by simp
  qed
qed

text \<open>What the generation phase logs: the entries of every column, for every row.\<close>

lemma genCols_log:
  "genCols y flds sl idxs st = Inr r \<Longrightarrow>
     snd r = snd st @ concat (map (\<lambda>x. snd (fieldValue y (flds ! x))) idxs)"
proof (induction idxs arbitrary: st)
  case Nil
  then show ?case by simp
next
  case (Cons x idxs)
  then show ?case by (auto split: if_splits dest!: Cons.IH)
qed

lemma genRows_log:
  "genRows y flds width rows st = Inr r \<Longrightarrow>
     snd r = snd st
       @ concat (map (\<lambda>i. concat (map (\<lambda>x. snd (fieldValue y (flds ! x))) [0..<length flds]))
           rows)"
proof (induction rows arbitrary: st)
  case Nil
  then show ?case by simp
next
  case (Cons x rows)
  from Cons.prems(1) obtain sl r1 where
    pv: "prefixView width (length flds) x = Inr sl" and
    gr: "generateFieldsRow y flds sl (fst st) = Inr r1" and
    rest: "genRows y flds width rows (fst r1, snd st @ snd r1) = Inr r"
    by (auto split: sum.splits)
  from prefixView_eq [OF pv] have sl: "s_len sl = length flds" by simp
  from gr have "genCols y flds sl [0..<s_len sl] (fst st, []) = Inr r1"
    by (simp add: generateFieldsRow_def)
  from genCols_log [OF this] sl
  have "snd r1 = concat (map (\<lambda>x. snd (fieldValue y (flds ! x))) [0..<length flds])" by simp
  with Cons.IH [OF rest] show ?case by simp
qed

text \<open>The sampling phase leaves the generate-columns as they are.\<close>

lemma sampleConstraints_frame:
  "sampleConstraints e ins vals cs colIdx b w = (res, b', w') \<Longrightarrow>
   \<forall>v \<in> set vals. g \<le> s_off v \<Longrightarrow> c < g \<Longrightarrow> b' ! r ! c = b ! r ! c"
proof (induction cs arbitrary: colIdx b w)
  case Nil
  then show ?case by simp
next
  case (Cons k cs)
  let ?n = "length (ReferencedFields k)"
  show ?case
  proof (cases "subSlices vals colIdx (colIdx + ?n)")
    case (Inl p)
    with Cons.prems(1) show ?thesis by simp
  next
    case (Inr subSlice)
    let ?s = "createSamplerFromForeignkeyLinks
                (relationship (fklinks ins) (Name (table ins)) (ReferencedTableName k)) k subSlice"
    let ?res = "sampleResult e (trace w) ?s"
    let ?b1 = "applySample (fst ?res) subSlice b"
    let ?w1 = "emit [SampleCall ?s (snd ?res)] w"
    from subSlices_eq [OF Inr] Cons.prems(2) have "\<forall>sl \<in> set subSlice. g \<le> s_off sl"
      by auto
    with Cons.prems(3) have "(r, c) \<notin> cellsOf subSlice"
      by (auto simp: cellsOf_def in_footprint)
    then have b1: "?b1 ! r ! c = b ! r ! c" by (rule applySample_frame)
    show ?thesis
    proof (cases "snd ?res")
      case (Some err)
      with Cons.prems(1) Inr have "b' = ?b1" by (auto simp: Let_def)
      with b1 show ?thesis by simp
    next
      case None
      with Cons.prems(1) Inr have
        "sampleConstraints e ins vals cs (colIdx + ?n) ?b1 ?w1 = (res, b', w')"
        by (simp add: Let_def)
      from Cons.IH [OF this Cons.prems(2,3)] b1 show ?thesis by simp
    qed
  qed
qed

lemma samplePhase_frame:
  assumes "samplePhase e ins n b w = (Inr b', w')"
    and "c < length (FieldsToGenerate (table ins))"
  shows "b' ! r ! c = b ! r ! c"
proof -
  let ?g = "length (FieldsToGenerate (table ins))"
  let ?s = "length (FieldsToSample (table ins))"
  obtain vs where sv: "sampledViews (?g + ?s) ?g [0..<n] = Inr vs"
    using sampledViews_total [of ?g "?g + ?s" "[0..<n]"] by auto
  from sampledViews_eq [OF sv] have off: "\<forall>v \<in> set vs. ?g \<le> s_off v" by simp
  obtain res1 b1 w1 where
    sc: "sampleConstraints e ins vs (Constraints (table ins)) 0 b w = (res1, b1, w1)"
    by (cases "sampleConstraints e ins vs (Constraints (table ins)) 0 b w")
  from assms(1) sv sc have "b' = b1"
    by (auto simp: samplePhase_def sampleFieldsTable_def Let_def split: sum.splits option.splits)
  with sampleConstraints_frame [OF sc off assms(2)] show ?thesis by simp
qed

text \<open>
  A chunk as \<open>genQuery\<close> leaves it: every generate-column of every row holds what the
  dispatch gives for its type, and the log has the entries of every column.
\<close>

lemma fillValues_generated:
  assumes fv: "fillValues e ins count w = (Inr vals, w1)"
  shows "(\<forall>i < nat count. \<forall>j < length (FieldsToGenerate (table ins)).
            vals ! i ! j = fst (fieldValue (yearNow e) (FieldsToGenerate (table ins) ! j)))
       \<and> (\<exists>new. trace w1 = trace w @ new
              \<and> (1 \<le> count \<longrightarrow>
                   (\<forall>j < length (FieldsToGenerate (table ins)).
                      set (snd (fieldValue (yearNow e) (FieldsToGenerate (table ins) ! j)))
                        \<subseteq> set new)))"
proof (cases "length (FieldsToGenerate (table ins)) = 0")
  case True
  from fillValues_effect [OF fv] obtain new where "trace w1 = trace w @ new" by blast
  with True show ?thesis by auto
next
  case False
  let ?g = "FieldsToGenerate (table ins)"
  let ?s = "FieldsToSample (table ins)"
  let ?width = "length ?g + length ?s"
  let ?n = "nat count"
  let ?vals = "replicate ?n (replicate ?width None)"
  obtain r where gen: "genRows (yearNow e) ?g ?width [0..<?n] (?vals, []) = Inr r"
    using genRows_total [of "yearNow e" ?g "length ?s" "[0..<?n]" "(?vals, [])"] by auto
  have cells: "fst r ! i ! j = fst (fieldValue (yearNow e) (?g ! j))"
    if "i < ?n" "j < length ?g" for i j
    using genRows_content [OF gen, of i j] that by simp
  from genRows_log [OF gen]
  have log: "snd r = concat (map (\<lambda>i. concat (map (\<lambda>x. snd (fieldValue (yearNow e) (?g ! x)))
                                [0..<length ?g])) [0..<?n])"
    by simp
  have logged: "set (snd (fieldValue (yearNow e) (?g ! j))) \<subseteq> set (snd r)"
    if "1 \<le> count" "j < length ?g" for j
  proof -
    from that(1) have "0 \<in> set [0..<?n]" by simp
    with that(2) show ?thesis unfolding log by fastforce
  qed
  show ?thesis
  proof (cases "length ?s \<noteq> 0")
    case True
    with fv gen False have sp: "samplePhase e ins ?n (fst r) (emit (snd r) w) = (Inr vals, w1)"
      by (simp add: fillValues_def Let_def)
    from samplePhase_effect [OF sp] obtain new where
      tr: "trace w1 = trace w @ (snd r @ new)" by auto
    have "vals ! i ! j = fst (fieldValue (yearNow e) (?g ! j))"
      if "i < ?n" "j < length ?g" for i j
      using samplePhase_frame [OF sp that(2), of i] cells [OF that] by simp
    moreover have "\<exists>new. trace w1 = trace w @ new
              \<and> (1 \<le> count \<longrightarrow>
                   (\<forall>j < length ?g.
                      set (snd (fieldValue (yearNow e) (?g ! j))) \<subseteq> set new))"
      using tr logged by (intro exI [of _ "snd r @ new"]) auto
    ultimately show ?thesis by blast
  next
    case no_samples: False
    with fv gen False have v: "vals = fst r" and w1: "w1 = emit (snd r) w"
      by (simp_all add: fillValues_def Let_def)
    have "\<exists>new. trace w1 = trace w @ new
              \<and> (1 \<le> count \<longrightarrow>
                   (\<forall>j < length ?g.
                      set (snd (fieldValue (yearNow e) (?g ! j))) \<subseteq> set new))"
      using w1 logged by (intro exI [of _ "snd r"]) auto
    with v cells show ?thesis by blast
  qed
qed

text \<open>
  With constraints that fit into the sample-columns and a notify channel that is open
  (or none), nothing in a run panics: \<open>run\<close> returns.
\<close>

lemma insert_chunk_returns:
  assumes "offsetOf (Constraints (table ins)) (length (Constraints (table ins)))
             \<le> length (FieldsToSample (table ins))"
  shows "\<exists>n err w'. insert_chunk e ins c d w = (Return n err, w')"
proof (cases "c < 1")
  case True
  then show ?thesis by (simp add: insert_chunk_small)
next
  case False
  then have c: "1 \<le> c" by simp
  from fillValues_total [OF assms, of e c w] obtain vals w1 where
    "fillValues e ins c w = (Inr vals, w1)" by blast
  with c obtain q where q: "genQuery e ins c w = (Inr (Some q), w1)"
    by (simp add: genQuery_def)
  show ?thesis
  proof (cases d)
    case True
    with insert_chunk_built(1) [OF c q] show ?thesis
      by (cases "writeResult e (trace w1) (q @ newline)") simp_all
  next
    case False
    with insert_chunk_built(2) [OF c q] show ?thesis
      by (cases "execResult e (trace w1) q") simp_all
  qed
qed

lemma notify_open:
  "\<forall>c. notifyChan ins = Some c \<longrightarrow> chan_open w c \<Longrightarrow> \<exists>w'. notify e ins n w = (None, w')"
  by (auto simp: notify_def split: option.splits)

lemma run_loop_returns:
  assumes fits: "offsetOf (Constraints (table ins)) (length (Constraints (table ins)))
             \<le> length (FieldsToSample (table ins))"
    and b: "1 \<le> b"
  shows "run_loop e ins b d k i ok w = (res, ok', w') \<Longrightarrow>
         \<forall>c. notifyChan ins = Some c \<longrightarrow> chan_open w c \<Longrightarrow>
           res = None \<or> (\<exists>n err. res = Some (Return n err))"
proof (induction "nat (k - i)" arbitrary: i ok w)
  case 0
  then have "\<not> i < k" by simp
  with "0.prems"(1) show ?case
    by (auto simp: run_loop.simps [of e ins b d k i ok w])
next
  case (Suc m)
  then have lt: "i < k" and m: "m = nat (k - (i + 1))" by simp_all
  from insert_chunk_returns [OF fits, of e b d w] obtain n err w1 where
    ic: "insert_chunk e ins b d w = (Return n err, w1)" by blast
  from insert_chunk_effect [OF ic b] have ch1: "chans w1 = chans w" by simp
  show ?case
  proof (cases err)
    case (Some x)
    with Suc.prems(1) lt ic show ?thesis
      by (auto simp: run_loop.simps [of e ins b d k i ok w])
  next
    case None
    from Suc.prems(2) chan_open_cong [OF ch1]
    have open1: "\<forall>c. notifyChan ins = Some c \<longrightarrow> chan_open w1 c" by simp
    from notify_open [OF this, of e n] obtain w2 where
      nt: "notify e ins n w1 = (None, w2)" by blast
    from notify_effect [OF nt] have ch2: "chans w2 = chans w1" by simp
    from open1 chan_open_cong [OF ch2]
    have open2: "\<forall>c. notifyChan ins = Some c \<longrightarrow> chan_open w2 c" by simp
    from Suc.prems(1) lt ic None nt have
      "run_loop e ins b d k (i + 1) (wrap64 (ok + n)) w2 = (res, ok', w')"
      by (auto simp: run_loop.simps [of e ins b d k i ok w])
    from Suc.hyps(1) [OF m this open2] show ?thesis .
  qed
qed

lemma insert_chunk_chans: "insert_chunk e ins c d w = (out, w') \<Longrightarrow> chans w' = chans w"
proof (cases "c < 1")
  case True
  assume "insert_chunk e ins c d w = (out, w')"
  with True show ?thesis by (simp add: insert_chunk_small)
next
  case False
  assume "insert_chunk e ins c d w = (out, w')"
  from insert_chunk_effect [OF this] False show ?thesis by simp
qed

lemma run_returns:
  assumes fits: "offsetOf (Constraints (table ins)) (length (Constraints (table ins)))
             \<le> length (FieldsToSample (table ins))"
    and b: "1 \<le> b"
    and is_open: "\<forall>c. notifyChan ins = Some c \<longrightarrow> chan_open w c"
    and r: "run e ins count b d w = (out, w')"
  shows "\<exists>n err. out = Return n err"
proof -
  from b have "b \<noteq> 0" by simp
  then obtain k rm where ch: "chunks count b = Inr (k, rm)"
    using chunks_panic_iff [of count b] by (cases "chunks count b") auto
  obtain res ok1 w1 where rl: "run_loop e ins b d k 0 0 w = (res, ok1, w1)"
    by (cases "run_loop e ins b d k 0 0 w")
  from run_loop_effect [OF b rl] have ch1: "chans w1 = chans w" by simp
  from run_loop_returns [OF fits b rl is_open]
  have res: "res = None \<or> (\<exists>n err. res = Some (Return n err))" .
  obtain out1 wb where rb: "run_body e ins count b d w = (out1, wb)"
    by (cases "run_body e ins count b d w")
  have body: "(\<exists>n err. out1 = Return n err) \<and> chans wb = chans w"
  proof (cases res)
    case (Some o1)
    with res rb ch rl ch1 show ?thesis by (auto simp: run_body_def)
  next
    case None
    from insert_chunk_returns [OF fits, of e rm d w1] obtain n err w2 where
      ic: "insert_chunk e ins rm d w1 = (Return n err, w2)" by blast
    from insert_chunk_chans [OF ic] have ch2: "chans w2 = chans w1" .
    from is_open chan_open_cong [of w2 w] ch2 ch1
    have "\<forall>c. notifyChan ins = Some c \<longrightarrow> chan_open w2 c" by simp
    from notify_open [OF this, of e n] obtain w3 where
      nt: "notify e ins n w2 = (None, w3)" by blast
    from notify_effect [OF nt] have ch3: "chans w3 = chans w2" by simp
    from rb ch rl None ic nt have "out1 = Return (wrap64 (ok1 + n)) err" "wb = w3"
      by (auto simp: run_body_def)
    with ch3 ch2 ch1 show ?thesis by simp
  qed
  then obtain n err where o1: "out1 = Return n err" and chb: "chans wb = chans w" by blast
  show ?thesis
  proof (cases "notifyChan ins")
    case None
    with r rb o1 show ?thesis by (auto simp: run_def)
  next
    case (Some c)
    with is_open chan_open_cong [OF chb] have "chan_open wb c" by simp
    then obtain w2 where "close_chan c wb = Inr w2" by (simp add: close_chan_def)
    with r rb o1 Some show ?thesis by (auto simp: run_def)
  qed
qed

text \<open>
  C10. For every column whose data type is none of the recognized names, generation
  yields no value for the column and only logs the condition; every column of the row,
  the others included, gets what the dispatch gives for its own type, and
  \<open>generateFieldsRow\<close> returns without error. The generation phase never fails. So,
  whatever the types of the columns, a chunk of at least one row is built: every
  generate-column of every row holds what the dispatch gives for its type (nothing for
  an unrecognized one, whose log entry is among those the chunk adds), the statement is
  rendered from these rows and issued, and what \<open>insert\<close> returns is the outcome of the
  statement. A run returns, and returns an error only if a statement failed; without
  an error it has issued the whole plan. (Both suppose that the referenced fields of
  the constraints fit into the sample-columns, and the second that the notify channel,
  if there is one, is open: see C6.) In the chunk plan the division is the only
  operation that can fail, it fails for a bulksize of 0 only, and for a bulksize of at
  least 1 the plan is computed without overflow.
\<close>

theorem unsupported_type_is_not_fatal:
  "(DataType f \<notin> set recognizedTypes \<longrightarrow>
      fieldValue year f
        = (None, [LogError ''unsupported datatypes when generating fields''
                    [(''type'', DataType f), (''field'', ColumnName f)]]))
   \<and> (\<forall>i b. i < length b \<and> length flds \<le> length (b ! i) \<longrightarrow>
         (\<exists>r. generateFieldsRow year flds
                 \<lparr>s_row = i, s_off = 0, s_len = length flds, s_cap = width\<rparr> b = Inr r
            \<and> (\<forall>j < length flds. fst r ! i ! j = fst (fieldValue year (flds ! j)))))
   \<and> (\<forall>s rows st. \<exists>r. genRows year flds (length flds + s) rows st = Inr r)
   \<and> (offsetOf (Constraints (table ins)) (length (Constraints (table ins)))
         \<le> length (FieldsToSample (table ins)) \<and> 1 \<le> count \<longrightarrow>
         (\<exists>vals w1 new.
             fillValues e ins count w = (Inr vals, w1)
             \<and> genQuery e ins count w = (Inr (Some (statementText e ins (trace w1) vals)), w1)
             \<and> length vals = nat count
             \<and> (\<forall>i < nat count. \<forall>j < length (FieldsToGenerate (table ins)).
                   vals ! i ! j
                     = fst (fieldValue (yearNow e) (FieldsToGenerate (table ins) ! j)))
             \<and> trace w1 = trace w @ new
             \<and> (\<forall>j < length (FieldsToGenerate (table ins)).
                   DataType (FieldsToGenerate (table ins) ! j) \<notin> set recognizedTypes \<longrightarrow>
                   LogError ''unsupported datatypes when generating fields''
                     [(''type'', DataType (FieldsToGenerate (table ins) ! j)),
                      (''field'', ColumnName (FieldsToGenerate (table ins) ! j))] \<in> set new))
         \<and> (\<forall>dryRun out w'. insert_chunk e ins count dryRun w = (out, w') \<longrightarrow>
               (\<exists>r. stmts (trace w') = stmts (trace w) @ [(count, r)]
                  \<and> out = Return (rows_of r) (case r of Inl x \<Rightarrow> Some x | Inr n \<Rightarrow> None))))
   \<and> (offsetOf (Constraints (table ins)) (length (Constraints (table ins)))
         \<le> length (FieldsToSample (table ins))
       \<and> is_int64 totalCount \<and> 1 \<le> bulksize
       \<and> (\<forall>c. notifyChan ins = Some c \<longrightarrow> chan_open w c) \<longrightarrow>
         (\<forall>dryRun out w'. run e ins totalCount bulksize dryRun w = (out, w') \<longrightarrow>
            (\<exists>n err ss. out = Return n err
                \<and> stmts (trace w') = stmts (trace w) @ ss
                \<and> (err = None \<longleftrightarrow> list_all succeeded ss)
                \<and> (err = None \<longrightarrow> map fst ss = chunkPlan totalCount bulksize))))
   \<and> ((\<exists>p. chunks totalCount bulksize = Inl p) \<longleftrightarrow> bulksize = 0)
   \<and> (is_int64 totalCount \<and> 1 \<le> bulksize \<longrightarrow>
         chunks totalCount bulksize
           = Inr (quo totalCount bulksize, totalCount - quo totalCount bulksize * bulksize))"
proof -
  let ?fits = "offsetOf (Constraints (table ins)) (length (Constraints (table ins)))
         \<le> length (FieldsToSample (table ins))"
  let ?g = "FieldsToGenerate (table ins)"
  have one: "DataType f \<notin> set recognizedTypes \<longrightarrow>
      fieldValue year f
        = (None, [LogError ''unsupported datatypes when generating fields''
                    [(''type'', DataType f), (''field'', ColumnName f)]])"
    using fieldValue_unsupported by blast
  have two: "\<forall>i b. i < length b \<and> length flds \<le> length (b ! i) \<longrightarrow>
         (\<exists>r. generateFieldsRow year flds
                 \<lparr>s_row = i, s_off = 0, s_len = length flds, s_cap = width\<rparr> b = Inr r
            \<and> (\<forall>j < length flds. fst r ! i ! j = fst (fieldValue year (flds ! j))))"
    using generateFieldsRow_row by blast
  have three: "\<forall>s rows st. \<exists>r. genRows year flds (length flds + s) rows st = Inr r"
    using genRows_total by blast
  have chunk: "\<exists>vals w1 new.
             fillValues e ins count w = (Inr vals, w1)
             \<and> genQuery e ins count w = (Inr (Some (statementText e ins (trace w1) vals)), w1)
             \<and> length vals = nat count
             \<and> (\<forall>i < nat count. \<forall>j < length ?g.
                   vals ! i ! j = fst (fieldValue (yearNow e) (?g ! j)))
             \<and> trace w1 = trace w @ new
             \<and> (\<forall>j < length ?g.
                   DataType (?g ! j) \<notin> set recognizedTypes \<longrightarrow>
                   LogError ''unsupported datatypes when generating fields''
                     [(''type'', DataType (?g ! j)), (''field'', ColumnName (?g ! j))] \<in> set new)"
    if a: "?fits \<and> 1 \<le> count"
  proof -
    from a have fits: ?fits and c: "1 \<le> count" by simp_all
    from fillValues_total [OF fits, of e count w] obtain vals w1 where
      fv: "fillValues e ins count w = (Inr vals, w1)" by blast
    with c obtain q where q: "genQuery e ins count w = (Inr (Some q), w1)"
      by (simp add: genQuery_def)
    from genQuery_text [OF q] fv have qt: "q = statementText e ins (trace w1) vals"
      and len: "length vals = nat count" by auto
    from fillValues_generated [OF fv] c obtain new where
      cells: "\<forall>i < nat count. \<forall>j < length ?g.
                vals ! i ! j = fst (fieldValue (yearNow e) (?g ! j))" and
      tr: "trace w1 = trace w @ new" and
      logs: "\<forall>j < length ?g. set (snd (fieldValue (yearNow e) (?g ! j))) \<subseteq> set new"
      by blast
    have "LogError ''unsupported datatypes when generating fields''
            [(''type'', DataType (?g ! j)), (''field'', ColumnName (?g ! j))] \<in> set new"
      if "j < length ?g" "DataType (?g ! j) \<notin> set recognizedTypes" for j
      using logs that(1) fieldValue_unsupported [OF that(2), of "yearNow e"] by auto
    with fv q qt len cells tr show ?thesis by blast
  qed
  have issued: "\<forall>dryRun out w'. insert_chunk e ins count dryRun w = (out, w') \<longrightarrow>
               (\<exists>r. stmts (trace w') = stmts (trace w) @ [(count, r)]
                  \<and> out = Return (rows_of r) (case r of Inl x \<Rightarrow> Some x | Inr n \<Rightarrow> None))"
    if a: "?fits \<and> 1 \<le> count"
  proof (intro allI impI)
    fix dryRun out w'
    assume ic: "insert_chunk e ins count dryRun w = (out, w')"
    from chunk [OF a] obtain q w1 where "genQuery e ins count w = (Inr (Some q), w1)" by blast
    from insert_chunk_statement [OF _ this ic] a
    show "\<exists>r. stmts (trace w') = stmts (trace w) @ [(count, r)]
          \<and> out = Return (rows_of r) (case r of Inl x \<Rightarrow> Some x | Inr n \<Rightarrow> None)"
      by simp
  qed
  have runs: "\<forall>dryRun out w'. run e ins totalCount bulksize dryRun w = (out, w') \<longrightarrow>
            (\<exists>n err ss. out = Return n err
                \<and> stmts (trace w') = stmts (trace w) @ ss
                \<and> (err = None \<longleftrightarrow> list_all succeeded ss)
                \<and> (err = None \<longrightarrow> map fst ss = chunkPlan totalCount bulksize))"
    if a: "?fits \<and> is_int64 totalCount \<and> 1 \<le> bulksize
       \<and> (\<forall>c. notifyChan ins = Some c \<longrightarrow> chan_open w c)"
  proof (intro allI impI)
    fix dryRun out w'
    assume r: "run e ins totalCount bulksize dryRun w = (out, w')"
    from a have fits: ?fits and i: "is_int64 totalCount" and b: "1 \<le> bulksize"
      and is_open: "\<forall>c. notifyChan ins = Some c \<longrightarrow> chan_open w c" by simp_all
    from run_returns [OF fits b is_open r] obtain n err where out: "out = Return n err"
      by blast
    from run_effect [OF i b r] out obtain ss where
      st: "stmts (trace w') = stmts (trace w) @ ss" and
      rs: "(case err of
              None \<Rightarrow> list_all succeeded ss \<and> map fst ss = chunkPlan totalCount bulksize
            | Some x \<Rightarrow> ss \<noteq> [] \<and> snd (last ss) = Inl x)"
      by auto
    have "err = None \<longleftrightarrow> list_all succeeded ss"
    proof (cases err)
      case None
      with rs show ?thesis by simp
    next
      case (Some x)
      with rs have "last ss \<in> set ss" "\<not> succeeded (last ss)"
        by (simp_all add: succeeded_def)
      then have "\<not> list_all succeeded ss" by (auto simp: list_all_iff)
      with Some show ?thesis by simp
    qed
    moreover have "err = None \<longrightarrow> map fst ss = chunkPlan totalCount bulksize"
      using rs by auto
    ultimately show "\<exists>n err ss. out = Return n err
                \<and> stmts (trace w') = stmts (trace w) @ ss
                \<and> (err = None \<longleftrightarrow> list_all succeeded ss)
                \<and> (err = None \<longrightarrow> map fst ss = chunkPlan totalCount bulksize)"
      using out st by blast
  qed
  have five: "(\<exists>p. chunks totalCount bulksize = Inl p) \<longleftrightarrow> bulksize = 0"
    by (rule chunks_panic_iff)
  have six: "is_int64 totalCount \<and> 1 \<le> bulksize \<longrightarrow>
         chunks totalCount bulksize
           = Inr (quo totalCount bulksize, totalCount - quo totalCount bulksize * bulksize)"
    using chunks_exact by blast
  from chunk issued have four: "?fits \<and> 1 \<le> count \<longrightarrow>
         (\<exists>vals w1 new.
             fillValues e ins count w = (Inr vals, w1)
             \<and> genQuery e ins count w = (Inr (Some (statementText e ins (trace w1) vals)), w1)
             \<and> length vals = nat count
             \<and> (\<forall>i < nat count. \<forall>j < length ?g.
                   vals ! i ! j = fst (fieldValue (yearNow e) (?g ! j)))
             \<and> trace w1 = trace w @ new
             \<and> (\<forall>j < length ?g.
                   DataType (?g ! j) \<notin> set recognizedTypes \<longrightarrow>
                   LogError ''unsupported datatypes when generating fields''
                     [(''type'', DataType (?g ! j)), (''field'', ColumnName (?g ! j))] \<in> set new))
         \<and> (\<forall>dryRun out w'. insert_chunk e ins count dryRun w = (out, w') \<longrightarrow>
               (\<exists>r. stmts (trace w') = stmts (trace w) @ [(count, r)]
                  \<and> out = Return (rows_of r) (case r of Inl x \<Rightarrow> Some x | Inr n \<Rightarrow> None)))"
    by (intro impI conjI) simp_all
  from runs have fourb: "?fits \<and> is_int64 totalCount \<and> 1 \<le> bulksize
       \<and> (\<forall>c. notifyChan ins = Some c \<longrightarrow> chan_open w c) \<longrightarrow>
         (\<forall>dryRun out w'. run e ins totalCount bulksize dryRun w = (out, w') \<longrightarrow>
            (\<exists>n err ss. out = Return n err
                \<and> stmts (trace w') = stmts (trace w) @ ss
                \<and> (err = None \<longleftrightarrow> list_all succeeded ss)
                \<and> (err = None \<longrightarrow> map fst ss = chunkPlan totalCount bulksize)))"
    by (intro impI) simp
  from one two three four fourb five six show ?thesis by (intro conjI)
qed

theorem unsupported_type_is_not_fatal_witness:
  "DataType (exampleField ''shape'' ''geometry'') \<notin> set recognizedTypes
   \<and> fieldValue 2026 (exampleField ''shape'' ''geometry'')
       = (None, [LogError ''unsupported datatypes when generating fields''
                   [(''type'', ''geometry''), (''field'', ''shape'')]])
   \<and> (\<exists>r. generateFieldsRow 2026 (FieldsToGenerate exampleTable)
              \<lparr>s_row = 0, s_off = 0, s_len = length (FieldsToGenerate exampleTable), s_cap = 3\<rparr>
              [replicate 3 None] = Inr r
          \<and> fst r ! 0 ! 0 = Some (RandomInt ''qty'' 255 False)
          \<and> fst r ! 0 ! 1 = None)
   \<and> offsetOf (Constraints (table exampleInsert)) (length (Constraints (table exampleInsert)))
       \<le> length (FieldsToSample (table exampleInsert))
   \<and> (1::int) \<le> 2
   \<and> fst (fillValues (exampleEnv None False) exampleInsert 2 emptyWorld)
       = Inr (replicate 2 [Some (RandomInt ''qty'' 255 False), None, Some (SampledValue ''7'')])
   \<and> (\<exists>vals w1. fillValues (exampleEnv None False) exampleInsert 2 emptyWorld = (Inr vals, w1)
          \<and> length vals = 2
          \<and> vals ! 1 ! 0 = Some (RandomInt ''qty'' 255 False)
          \<and> vals ! 1 ! 1 = None
          \<and> LogError ''unsupported datatypes when generating fields''
               [(''type'', ''geometry''), (''field'', ''shape'')] \<in> set (trace w1))
   \<and> fst (genQuery (exampleEnv None False) exampleInsert 2 emptyWorld)
       = Inr (Some ''INSERT INTO shop.orders VALUES (r),(r)'')
   \<and> is_int64 11 \<and> (1::int) \<le> 4
   \<and> fst (run (exampleEnv None False) exampleInsert 11 4 True emptyWorld) = Return 11 None
   \<and> (\<exists>ss. stmts (trace (snd (run (exampleEnv None False) exampleInsert 11 4 True emptyWorld)))
             = stmts (trace emptyWorld) @ ss
          \<and> list_all succeeded ss \<and> map fst ss = [4, 4, 3])
   \<and> chunks 11 4 = Inr (2, 3)
   \<and> chunks 11 0 = Inl DivideByZero"
proof -
  let ?f = "exampleField ''shape'' ''geometry''"
  let ?flds = "FieldsToGenerate exampleTable"
  let ?e = "exampleEnv None False"
  let ?r = "run ?e exampleInsert 11 4 True emptyWorld"
  note t = unsupported_type_is_not_fatal [where f = ?f and year = 2026 and flds = ?flds
      and width = 3 and ins = exampleInsert and count = 2 and e = ?e
      and w = emptyWorld and totalCount = 11 and bulksize = 4]
  have un: "DataType ?f \<notin> set recognizedTypes"
    by (simp add: exampleField_def recognizedTypes_def)
  from t [THEN conjunct1] un have fv: "fieldValue 2026 ?f
       = (None, [LogError ''unsupported datatypes when generating fields''
                   [(''type'', ''geometry''), (''field'', ''shape'')]])"
    by (simp add: exampleField_def)
  have tbl: "table exampleInsert = exampleTable" by (simp add: exampleInsert_def New_def)
  have len: "length ?flds = 2" and f0: "?flds ! 0 = exampleField ''qty'' ''smallint''"
    and f1: "?flds ! 1 = ?f"
    by (simp_all add: exampleTable_def)
  have yr: "yearNow ?e = 2026" by (simp add: exampleEnv_def)
  have v0: "fst (fieldValue 2026 (exampleField ''qty'' ''smallint''))
      = Some (RandomInt ''qty'' 255 False)"
    by code_simp
  from t [THEN conjunct2, THEN conjunct1, rule_format, of 0 "[replicate 3 None]"] len
  obtain r where r: "generateFieldsRow 2026 ?flds
        \<lparr>s_row = 0, s_off = 0, s_len = length ?flds, s_cap = 3\<rparr> [replicate 3 None] = Inr r"
    and cells: "\<forall>j < length ?flds. fst r ! 0 ! j = fst (fieldValue 2026 (?flds ! j))"
    by auto
  from cells len have "fst r ! 0 ! 0 = fst (fieldValue 2026 (?flds ! 0))"
      "fst r ! 0 ! 1 = fst (fieldValue 2026 (?flds ! 1))"
    by simp_all
  with f0 f1 v0 fv have row: "fst r ! 0 ! 0 = Some (RandomInt ''qty'' 255 False)"
      "fst r ! 0 ! 1 = None"
    by simp_all
  have fits: "offsetOf (Constraints (table exampleInsert)) (length (Constraints (table exampleInsert)))
       \<le> length (FieldsToSample (table exampleInsert))"
    by (simp add: tbl exampleTable_def exampleConstraint_def offsetOf_def)
  have c: "(1::int) \<le> 2" by simp
  have filled: "fst (fillValues ?e exampleInsert 2 emptyWorld)
       = Inr (replicate 2 [Some (RandomInt ''qty'' 255 False), None, Some (SampledValue ''7'')])"
    by code_simp
  have query: "fst (genQuery ?e exampleInsert 2 emptyWorld)
       = Inr (Some ''INSERT INTO shop.orders VALUES (r),(r)'')"
    by code_simp
  from t [THEN conjunct2, THEN conjunct2, THEN conjunct2, THEN conjunct1] fits c
  obtain vals w1 new where
    fv2: "fillValues ?e exampleInsert 2 emptyWorld = (Inr vals, w1)" and
    l2: "length vals = nat 2" and
    cells2: "\<forall>i < nat 2. \<forall>j < length (FieldsToGenerate (table exampleInsert)).
               vals ! i ! j
                 = fst (fieldValue (yearNow ?e) (FieldsToGenerate (table exampleInsert) ! j))" and
    tr2: "trace w1 = trace emptyWorld @ new" and
    logs2: "\<forall>j < length (FieldsToGenerate (table exampleInsert)).
               DataType (FieldsToGenerate (table exampleInsert) ! j) \<notin> set recognizedTypes \<longrightarrow>
               LogError ''unsupported datatypes when generating fields''
                 [(''type'', DataType (FieldsToGenerate (table exampleInsert) ! j)),
                  (''field'', ColumnName (FieldsToGenerate (table exampleInsert) ! j))]
               \<in> set new"
    by blast
  from cells2 [rule_format, of 1 0] cells2 [rule_format, of 1 1] len f0 f1 v0 fv
  have c2: "vals ! 1 ! 0 = Some (RandomInt ''qty'' 255 False)" "vals ! 1 ! 1 = None"
    by (simp_all add: tbl yr)
  from logs2 [rule_format, of 1] len f1 un tr2
  have lg: "LogError ''unsupported datatypes when generating fields''
               [(''type'', ''geometry''), (''field'', ''shape'')] \<in> set (trace w1)"
    by (simp add: tbl exampleField_def)
  from fv2 l2 c2 lg
  have chunk: "\<exists>vals w1. fillValues ?e exampleInsert 2 emptyWorld = (Inr vals, w1)
          \<and> length vals = 2
          \<and> vals ! 1 ! 0 = Some (RandomInt ''qty'' 255 False)
          \<and> vals ! 1 ! 1 = None
          \<and> LogError ''unsupported datatypes when generating fields''
               [(''type'', ''geometry''), (''field'', ''shape'')] \<in> set (trace w1)"
    by auto
  have i: "is_int64 11" by (simp add: is_int64_def)
  have b: "(1::int) \<le> 4" by simp
  have no_chan: "\<forall>c. notifyChan exampleInsert = Some c \<longrightarrow> chan_open emptyWorld c"
    by (simp add: exampleInsert_def New_def)
  have ran: "fst ?r = Return 11 None" by code_simp
  have plan: "chunkPlan 11 4 = [4, 4, 3]" by code_simp
  have pr: "?r = (fst ?r, snd ?r)" by simp
  from t [THEN conjunct2, THEN conjunct2, THEN conjunct2, THEN conjunct2, THEN conjunct1]
    fits i b no_chan
  have "\<forall>dryRun out w'. run ?e exampleInsert 11 4 dryRun emptyWorld = (out, w') \<longrightarrow>
            (\<exists>n err ss. out = Return n err
                \<and> stmts (trace w') = stmts (trace emptyWorld) @ ss
                \<and> (err = None \<longleftrightarrow> list_all succeeded ss)
                \<and> (err = None \<longrightarrow> map fst ss = chunkPlan 11 4))"
    by blast
  from this [rule_format, OF pr] ran plan
  have whole: "\<exists>ss. stmts (trace (snd ?r)) = stmts (trace emptyWorld) @ ss
          \<and> list_all succeeded ss \<and> map fst ss = [4, 4, 3]"
    by auto
  from t [THEN conjunct2, THEN conjunct2, THEN conjunct2, THEN conjunct2, THEN conjunct2,
      THEN conjunct2] i b
  have "chunks 11 4 = Inr (quo 11 4, 11 - quo 11 4 * 4)" by blast
  then have cp: "chunks 11 4 = Inr (2, 3)" by (simp add: quo_def)
  have z: "chunks 11 0 = Inl DivideByZero" by (rule chunks_zero)
  from un fv r row fits c filled chunk query i b ran whole cp z show ?thesis by blast
qed

section \<open>The notify channel\<close>

lemma NotifyChan_first:
  "notifyChan ins = None \<Longrightarrow>
     NotifyChan ins w
       = (Inr (length (chans w)), ins\<lparr>notifyChan := Some (length (chans w))\<rparr>,
          w\<lparr>chans := chans w @ [True]\<rparr>)"
  by (simp add: NotifyChan_def)

lemma NotifyChan_recreates:
  assumes "notifyChan ins = Some c" and "chan_open w c"
  shows "\<exists>c' ins' w'. NotifyChan ins w = (Inr c', ins', w')
           \<and> \<not> chan_open w' c \<and> chan_open w' c' \<and> c' \<noteq> c \<and> notifyChan ins' = Some c'"
  using assms
  by (auto simp: NotifyChan_def close_chan_def chan_open_def emit_def nth_append)

lemma NotifyChan_closed_panics:
  "notifyChan ins = Some c \<Longrightarrow> \<not> chan_open w c \<Longrightarrow>
     NotifyChan ins w = (Inl CloseOfClosedChannel, ins, w)"
  by (simp add: NotifyChan_def close_chan_def)

text \<open>
  Whenever \<open>run\<close> returns or panics, its channel is closed afterwards. (When a goroutine
  of \<open>genQuery\<close> panics the program ends, and nothing is closed.)
\<close>

lemma run_closes_channel:
  assumes "notifyChan ins = Some c" and "run e ins count bulksize dryRun w = (out, w')"
    and "\<forall>p. out \<noteq> Crash p"
  shows "\<not> chan_open w' c"
proof -
  obtain out1 w1 where rb: "run_body e ins count bulksize dryRun w = (out1, w1)"
    by (cases "run_body e ins count bulksize dryRun w")
  have nc: "\<forall>p. out1 \<noteq> Crash p"
  proof (intro allI notI)
    fix p
    assume "out1 = Crash p"
    with assms(1,2) rb have "out = Crash p" by (simp add: run_def)
    with assms(3) show False by simp
  qed
  then have deferred: "run e ins count bulksize dryRun w
      = (case close_chan c w1 of Inl p \<Rightarrow> (Panic p, w1) | Inr w2 \<Rightarrow> (out1, w2))"
    using rb assms(1) by (cases out1) (auto simp: run_def split: sum.splits)
  show ?thesis
  proof (cases "close_chan c w1")
    case (Inl p)
    with assms(2) deferred have "w' = w1" by simp
    with close_chan_panic [OF Inl] show ?thesis by simp
  next
    case (Inr w2)
    with assms(2) deferred have "w' = w2" by simp
    with close_chan_effect [OF Inr] show ?thesis by simp
  qed
qed

lemma run_crash_closes_nothing:
  assumes "is_int64 count" and "1 \<le> bulksize"
    and "run e ins count bulksize dryRun w = (Crash p, w')"
  shows "chans w' = chans w"
proof -
  obtain out1 w1 where rb: "run_body e ins count bulksize dryRun w = (out1, w1)"
    by (cases "run_body e ins count bulksize dryRun w")
  from assms(3) rb have "w' = w1"
    by (auto simp: run_def split: option.splits outcome.splits sum.splits)
  with run_body_effect [OF assms(1,2) rb] show ?thesis by simp
qed

lemma NotifyChan_after_run:
  assumes "notifyChan ins = Some c" and "run e ins count bulksize dryRun w = (out, w')"
    and "\<forall>p. out \<noteq> Crash p"
  shows "NotifyChan ins w' = (Inl CloseOfClosedChannel, ins, w')"
  using NotifyChan_closed_panics [OF assms(1) run_closes_channel [OF assms]] .

lemma notify_never_blocks:
  "notifyChan ins = Some c \<Longrightarrow> chan_open w c \<Longrightarrow>
     notify e ins n w = (None, emit [ChanSend c n (receiverReady e (trace w))] w)"
  by (simp add: notify_def)

lemma notify_without_channel: "notifyChan ins = None \<Longrightarrow> notify e ins n w = (None, w)"
  by (simp add: notify_def)

text \<open>
  C6. Requesting the notify channel closes the previously requested one and makes a new
  one as long as the previous one is still open (\<open>NotifyChan_recreates\<close>); a run closes
  the channel it was given whenever it returns or panics (\<open>run_closes_channel\<close>); a
  notification is delivered when a receiver waits and dropped otherwise, and \<open>notify\<close>
  returns either way (\<open>notify_never_blocks\<close>). But \<open>run\<close> leaves the closed channel in
  \<open>in.notifyChan\<close>: requesting the channel again after a run closes a closed channel,
  which panics, and no new channel is made (\<open>NotifyChan_after_run\<close>, after every run
  that returned or panicked). Here a fresh \<open>Insert\<close> is asked for its channel, a dry run
  of three rows in statements of two is made, and the channel is asked for again.
\<close>

theorem notify_chan_after_run_panics:
  "(case NotifyChan exampleInsert emptyWorld of
      (r1, ins1, w1) \<Rightarrow>
        (case DryRun (exampleEnv None False) ins1 3 2 w1 of
           (out, w2) \<Rightarrow>
             (r1, notifyChan ins1, out, chan_open w2 0, fst (NotifyChan ins1 w2))))
   = (Inr 0, Some 0, Return 3 None, False, Inl CloseOfClosedChannel)"
  by code_simp

lemma second_run_panics:
  "(case NotifyChan exampleInsert emptyWorld of
      (r1, ins1, w1) \<Rightarrow>
        (case DryRun (exampleEnv None False) ins1 3 2 w1 of
           (out, w2) \<Rightarrow> fst (DryRun (exampleEnv None False) ins1 3 2 w2)))
   = Panic CloseOfClosedChannel"
  by code_simp

end
